theory Spec2Isabelle
  imports Main "HOL-Library.Word"
begin

section \<open>JavaScript strings\<close>

text \<open>
  A JavaScript string is a sequence of 16-bit code units; \<open>length\<close> counts code units.
  The pipeline of \<open>extractTextFromPDF\<close> and \<open>removeRepeatedLines\<close> only compares,
  classifies and copies code units, so a string is a list of 16-bit words.
\<close>

type_synonym jschar = "16 word"
type_synonym jsstring = "jschar list"

definition LF :: jschar where "LF = 0x0A"
definition SP :: jschar where "SP = 0x20"
definition HYPHEN :: jschar where "HYPHEN = 0x2D"

text \<open>ASCII (and Latin-1) literals: the code unit of a character is its code point.\<close>

definition str :: "string \<Rightarrow> jsstring" where
  "str s = map (\<lambda>c. of_nat (of_char c)) s"

text \<open>
  The class \<open>\s\<close> of a regular expression, which is also the set \<open>trim\<close> strips:
  WhiteSpace (TAB, VT, FF, SP, NBSP, ZWNBSP and the category Zs) and LineTerminator
  (LF, CR, LS, PS).
\<close>

definition isSpace :: "jschar \<Rightarrow> bool" where
  "isSpace c \<longleftrightarrow>
     c = 0x09 \<or> c = 0x0A \<or> c = 0x0B \<or> c = 0x0C \<or> c = 0x0D \<or> c = 0x20 \<or> c = 0xA0 \<or>
     c = 0x1680 \<or> (0x2000 \<le> c \<and> c \<le> 0x200A) \<or> c = 0x2028 \<or> c = 0x2029 \<or>
     c = 0x202F \<or> c = 0x205F \<or> c = 0x3000 \<or> c = 0xFEFF"

text \<open>
  The class \<open>\w\<close> without the \<open>u\<close> and \<open>i\<close> flags: \<open>[A-Za-z0-9_]\<close>. A word
  boundary \<open>\b\<close> is judged with the same class, so no accented letter is a word
  character.
\<close>

definition isWordChar :: "jschar \<Rightarrow> bool" where
  "isWordChar c \<longleftrightarrow>
     (0x41 \<le> c \<and> c \<le> 0x5A) \<or> (0x61 \<le> c \<and> c \<le> 0x7A) \<or> (0x30 \<le> c \<and> c \<le> 0x39) \<or> c = 0x5F"

text \<open>
  The character class of step 2, as the source spells it:
  \<open>A-Z\<close>, \<open>a-z\<close>, U+00C1, U+00C9, U+00CD, U+00D3, U+00DA, U+00D1 (the capitals with
  acute and the capital N with tilde), \<open>a-z\<close> again, U+00E1, U+00E9, U+00ED, U+00F3,
  U+00FA (the small letters with acute). U+00F1, the small n with tilde, is not listed.
\<close>

definition isLetter :: "jschar \<Rightarrow> bool" where
  "isLetter c \<longleftrightarrow>
     (0x41 \<le> c \<and> c \<le> 0x5A) \<or> (0x61 \<le> c \<and> c \<le> 0x7A) \<or>
     c = 0xC1 \<or> c = 0xC9 \<or> c = 0xCD \<or> c = 0xD3 \<or> c = 0xDA \<or> c = 0xD1 \<or>
     c = 0xE1 \<or> c = 0xE9 \<or> c = 0xED \<or> c = 0xF3 \<or> c = 0xFA"

text \<open>\<open>\b\<close> between the code unit before a position (if any) and the text after it.\<close>

fun wordBoundary :: "jschar option \<Rightarrow> jsstring \<Rightarrow> bool" where
  "wordBoundary None [] = False"
| "wordBoundary None (c # r) = isWordChar c"
| "wordBoundary (Some p) [] = isWordChar p"
| "wordBoundary (Some p) (c # r) = (isWordChar p \<noteq> isWordChar c)"

text \<open>\<open>String.prototype.trim\<close>.\<close>

definition trimStart :: "jsstring \<Rightarrow> jsstring" where
  "trimStart s = dropWhile isSpace s"

definition trimEnd :: "jsstring \<Rightarrow> jsstring" where
  "trimEnd s = rev (dropWhile isSpace (rev s))"

definition trim :: "jsstring \<Rightarrow> jsstring" where
  "trim s = trimEnd (trimStart s)"

text \<open>\<open>text.split('\n')\<close>: the empty string splits into one empty line.\<close>

fun split :: "jsstring \<Rightarrow> jsstring list" where
  "split [] = [[]]"
| "split (c # cs) =
     (if c = LF then [] # split cs
      else (case split cs of [] \<Rightarrow> [[c]] | l # ls \<Rightarrow> (c # l) # ls))"

text \<open>\<open>Array.prototype.join\<close> with a separator.\<close>

fun join :: "jsstring \<Rightarrow> jsstring list \<Rightarrow> jsstring" where
  "join sep [] = []"
| "join sep [l] = l"
| "join sep (l # ls) = l @ sep @ join sep ls"

section \<open>The regular-expression rewrites of \<open>extractTextFromPDF\<close>\<close>

text \<open>
  \<open>s.replace(/re/g, r)\<close> scans from the left: at each position it tries the expression
  (greedy quantifiers first, backtracking); on a match it emits the replacement and goes
  on after the match, otherwise it copies one code unit and goes on at the next position.
  Each rewrite below is that scan for one expression of the source.
\<close>

subsection \<open>Step 1: \<open>/\n\s*\n/g\<close> to two newlines\<close>

text \<open>
  After the first newline, \<open>\s*\<close> takes the whole run of whitespace and gives code
  units back until a newline follows: the match ends at the last newline of the run.
  \<open>afterLastLF\<close> is what is left of the run behind the match.
\<close>

definition afterLastLF :: "jsstring \<Rightarrow> jsstring" where
  "afterLastLF ws = rev (takeWhile (\<lambda>c. c \<noteq> LF) (rev ws))"

function collapseBlankLines :: "jsstring \<Rightarrow> jsstring" where
  "collapseBlankLines [] = []"
| "collapseBlankLines (c # r) =
     (if c = LF \<and> LF \<in> set (takeWhile isSpace r)
      then LF # LF # collapseBlankLines (afterLastLF (takeWhile isSpace r) @ dropWhile isSpace r)
      else c # collapseBlankLines r)"
  by pat_completeness auto
termination
proof (relation "measure length")
  fix c :: jschar and r :: jsstring
  have "length (afterLastLF (takeWhile isSpace r)) \<le> length (takeWhile isSpace r)"
    unfolding afterLastLF_def by (metis length_rev length_takeWhile_le)
  moreover have "length (takeWhile isSpace r) + length (dropWhile isSpace r) = length r"
    by (metis length_append takeWhile_dropWhile_id)
  ultimately show
    "(afterLastLF (takeWhile isSpace r) @ dropWhile isSpace r, c # r) \<in> measure length"
    by simp
qed simp_all

subsection \<open>Step 2: runs of single letters\<close>

text \<open>
  \<open>/\b(?:[L]\s+){1,}[L]\b/g\<close>, each match replaced by itself without whitespace.
  \<open>letterRun s\<close> matches \<open>(?:[L]\s+){1,}[L]\b\<close> at the head of \<open>s\<close> and returns the
  matched prefix. One iteration is a letter and its whole run of whitespace (a shorter
  \<open>\s+\<close> would leave whitespace where a letter has to follow); the greedy \<open>{1,}\<close>
  first tries a further iteration and only when that fails closes the match with
  \<open>[L]\b\<close>.
\<close>

function letterRun :: "jsstring \<Rightarrow> jsstring option" where
  "letterRun [] = None"
| "letterRun (c # r) =
     (if isLetter c \<and> takeWhile isSpace r \<noteq> []
      then (case letterRun (dropWhile isSpace r) of
              Some m \<Rightarrow> Some (c # takeWhile isSpace r @ m)
            | None \<Rightarrow>
               (case dropWhile isSpace r of
                  [] \<Rightarrow> None
                | d # r' \<Rightarrow>
                    if isLetter d \<and> wordBoundary (Some d) r'
                    then Some (c # takeWhile isSpace r @ [d]) else None))
      else None)"
  by pat_completeness auto
termination
  by (relation "measure length") (auto simp: less_Suc_eq_le length_dropWhile_le)

text \<open>
  The scan: \<open>prev\<close> is the code unit before the current position, for the leading
  \<open>\b\<close>. A match \<open>m\<close> starts with \<open>c\<close>, so the scan goes on \<open>length m - 1\<close> code
  units into \<open>r\<close>, with the last code unit of the match before it. The replacement is
  the callback \<open>match => match.replace(/\s+/g, '')\<close>.
\<close>

function joinLetters :: "jschar option \<Rightarrow> jsstring \<Rightarrow> jsstring" where
  "joinLetters prev [] = []"
| "joinLetters prev (c # r) =
     (if wordBoundary prev (c # r)
      then (case letterRun (c # r) of
              Some m \<Rightarrow>
                filter (\<lambda>x. \<not> isSpace x) m @ joinLetters (Some (last m)) (drop (length m - 1) r)
            | None \<Rightarrow> c # joinLetters (Some c) r)
      else c # joinLetters (Some c) r)"
  by pat_completeness auto
termination
  by (relation "measure (\<lambda>(p, s). length s)") (auto simp: less_Suc_eq_le)

subsection \<open>Step 3: \<open>/\s{2,}/g\<close> to one space\<close>

function collapseSpaces :: "jsstring \<Rightarrow> jsstring" where
  "collapseSpaces [] = []"
| "collapseSpaces (c # r) =
     (if isSpace c \<and> takeWhile isSpace r \<noteq> []
      then SP # collapseSpaces (dropWhile isSpace r)
      else c # collapseSpaces r)"
  by pat_completeness auto
termination
  by (relation "measure length") (auto simp: less_Suc_eq_le length_dropWhile_le)

subsection \<open>Step 4: hyphenation\<close>

text \<open>
  \<open>/-\s*\n\s*/g\<close> to the empty string: a hyphen whose following run of whitespace
  holds a newline is removed with the whole run (the first \<open>\s*\<close> stops before the
  last newline of the run, the second takes what follows it).
\<close>

function removeLineBreakHyphens :: "jsstring \<Rightarrow> jsstring" where
  "removeLineBreakHyphens [] = []"
| "removeLineBreakHyphens (c # r) =
     (if c = HYPHEN \<and> LF \<in> set (takeWhile isSpace r)
      then removeLineBreakHyphens (dropWhile isSpace r)
      else c # removeLineBreakHyphens r)"
  by pat_completeness auto
termination
  by (relation "measure length") (auto simp: less_Suc_eq_le length_dropWhile_le)

text \<open>
  \<open>/(\w)-\s+(\w)/g\<close> to \<open>$1$2\<close>: a word character, a hyphen right behind it, a run of
  whitespace and a word character; the two word characters are kept.
\<close>

function joinSpacedHyphens :: "jsstring \<Rightarrow> jsstring" where
  "joinSpacedHyphens [] = []"
| "joinSpacedHyphens [c] = [c]"
| "joinSpacedHyphens (c # h # r) =
     (if isWordChar c \<and> h = HYPHEN \<and> takeWhile isSpace r \<noteq> []
      then (case dropWhile isSpace r of
              [] \<Rightarrow> c # joinSpacedHyphens (h # r)
            | d # r' \<Rightarrow>
                if isWordChar d then c # d # joinSpacedHyphens r'
                else c # joinSpacedHyphens (h # r))
      else c # joinSpacedHyphens (h # r))"
  by pat_completeness auto
termination
proof (relation "measure length")
  fix c h d :: jschar and r r' :: jsstring
  assume "dropWhile isSpace r = d # r'"
  then have "length r' < length (dropWhile isSpace r)" by simp
  also have "\<dots> \<le> length r" by (rule length_dropWhile_le)
  finally show "(r', c # h # r) \<in> measure length" by simp
qed simp_all

section \<open>\<open>removeRepeatedLines\<close>\<close>

text \<open>
  \<open>frequency\<close> is an object literal \<open>{}\<close> used as a table. Reading a key that is not an
  own property falls through to \<open>Object.prototype\<close>, whose members are functions (and,
  for \<open>__proto__\<close>, the prototype object itself). A value read from the table is
  therefore a number, \<open>undefined\<close>, or something that is not a number.
\<close>

datatype jsvalue = Undefined | Number nat | NotANumber

text \<open>The property names of \<open>Object.prototype\<close> (ECMAScript, with its Annex B).\<close>

definition objectPrototypeKeys :: "jsstring list" where
  "objectPrototypeKeys = map str
     [''constructor'', ''hasOwnProperty'', ''isPrototypeOf'', ''propertyIsEnumerable'',
      ''toLocaleString'', ''toString'', ''valueOf'', ''__proto__'',
      ''__defineGetter__'', ''__defineSetter__'', ''__lookupGetter__'', ''__lookupSetter__'']"

type_synonym frequencyTable = "jsstring \<rightharpoonup> jsvalue"

text \<open>\<open>frequency[line]\<close>.\<close>

definition getFrequency :: "frequencyTable \<Rightarrow> jsstring \<Rightarrow> jsvalue" where
  "getFrequency frequency line =
     (case frequency line of
        Some v \<Rightarrow> v
      | None \<Rightarrow> if line \<in> set objectPrototypeKeys then NotANumber else Undefined)"

text \<open>
  \<open>(v || 0) + 1\<close>: \<open>undefined\<close> and \<open>0\<close> are falsy and count as 0; a number is
  incremented; a function, an object or a non-empty string is truthy and \<open>+ 1\<close>
  appends \<open>"1"\<close> to its string form, which is not a number.
\<close>

fun orZeroPlusOne :: "jsvalue \<Rightarrow> jsvalue" where
  "orZeroPlusOne Undefined = Number 1"
| "orZeroPlusOne (Number n) = Number (n + 1)"
| "orZeroPlusOne NotANumber = NotANumber"

text \<open>
  \<open>frequency[line] = v\<close>. On \<open>__proto__\<close> the assignment runs the setter of
  \<open>Object.prototype\<close>, which ignores a value that is neither an object nor null.
\<close>

definition setFrequency :: "frequencyTable \<Rightarrow> jsstring \<Rightarrow> jsvalue \<Rightarrow> frequencyTable" where
  "setFrequency frequency line v =
     (if line = str ''__proto__'' then frequency else frequency(line \<mapsto> v))"

text \<open>\<open>v > 2\<close>: a value that is not a number converts to NaN, and NaN compares false.\<close>

fun greaterThan2 :: "jsvalue \<Rightarrow> bool" where
  "greaterThan2 (Number n) = (n > 2)"
| "greaterThan2 _ = False"

text \<open>The two \<open>for ... of\<close> loops, with the array or table they build passed along.\<close>

fun dedupLoop :: "jsstring list \<Rightarrow> jsstring list \<Rightarrow> jsstring list" where
  "dedupLoop dedupedLines [] = dedupedLines"
| "dedupLoop dedupedLines (line # lines) =
     dedupLoop
       (if length dedupedLines = 0 \<or> last dedupedLines \<noteq> line
        then dedupedLines @ [line] else dedupedLines)
       lines"

fun countLoop :: "frequencyTable \<Rightarrow> jsstring list \<Rightarrow> frequencyTable" where
  "countLoop frequency [] = frequency"
| "countLoop frequency (line # lines) =
     countLoop (setFrequency frequency line (orZeroPlusOne (getFrequency frequency line))) lines"

definition originalLines :: "jsstring \<Rightarrow> jsstring list" where
  "originalLines text = filter (\<lambda>line. line \<noteq> []) (map trim (split text))"

definition removeRepeatedLines :: "jsstring \<Rightarrow> jsstring" where
  "removeRepeatedLines text =
     (let dedupedLines = dedupLoop [] (originalLines text);
          frequency = countLoop Map.empty (originalLines text);
          filteredLines =
            filter (\<lambda>line. \<not> (greaterThan2 (getFrequency frequency line) \<and> length line < 80))
              dedupedLines
      in join [LF] filteredLines)"

section \<open>\<open>extractTextFromPDF\<close>\<close>

text \<open>
  The PDF library is outside the repository: what it delivers is a parameter. A page is
  the list of the \<open>str\<close> fields of its text items; a document that the library rejects
  makes the \<open>try\<close> block throw, and the \<open>catch\<close> rethrows one fixed error.
\<close>

type_synonym page = "jsstring list"

datatype error = ExtractionError

text \<open>The page loop: \<open>fullText += pageText + '\n\n'\<close>.\<close>

fun pageLoop :: "jsstring \<Rightarrow> page list \<Rightarrow> jsstring" where
  "pageLoop fullText [] = fullText"
| "pageLoop fullText (items # pages) = pageLoop (fullText @ join [SP] items @ [LF, LF]) pages"

text \<open>Steps 1 to 5 on the assembled text.\<close>

definition cleanText :: "jsstring \<Rightarrow> jsstring" where
  "cleanText fullText =
     (let cleanedText = trim (collapseBlankLines fullText);
          cleanedText = joinLetters None cleanedText;
          cleanedText = collapseSpaces cleanedText;
          cleanedText = removeLineBreakHyphens cleanedText;
          cleanedText = joinSpacedHyphens cleanedText
      in removeRepeatedLines cleanedText)"

definition extractTextFromPDF :: "page list option \<Rightarrow> error + jsstring" where
  "extractTextFromPDF pdf =
     (case pdf of
        None \<Rightarrow> Inl ExtractionError
      | Some pages \<Rightarrow> Inr (cleanText (pageLoop [] pages)))"

section \<open>Predicates of the statements\<close>

text \<open>A string without leading or trailing whitespace.\<close>

definition trimmed :: "jsstring \<Rightarrow> bool" where
  "trimmed s \<longleftrightarrow> s = [] \<or> (\<not> isSpace (hd s) \<and> \<not> isSpace (last s))"

text \<open>No two whitespace code units side by side.\<close>

fun noSpacePair :: "jsstring \<Rightarrow> bool" where
  "noSpacePair [] = True"
| "noSpacePair [c] = True"
| "noSpacePair (c # d # r) = (\<not> (isSpace c \<and> isSpace d) \<and> noSpacePair (d # r))"

text \<open>
  \<open>(\w)-\s+(\w)\<close> matches at a hyphen that has \<open>c\<close> before it and \<open>t\<close> behind it.
\<close>

definition spacedHyphenMatch :: "jschar \<Rightarrow> jsstring \<Rightarrow> bool" where
  "spacedHyphenMatch c t \<longleftrightarrow>
     isWordChar c \<and> takeWhile isSpace t \<noteq> [] \<and> dropWhile isSpace t \<noteq> [] \<and>
     isWordChar (hd (dropWhile isSpace t))"

text \<open>
  No hyphen whose following run of whitespace holds a newline: nothing for
  \<open>/-\s*\n\s*/g\<close> to match.
\<close>

fun noBreakHyphen :: "jsstring \<Rightarrow> bool" where
  "noBreakHyphen [] = True"
| "noBreakHyphen (c # r) =
     (\<not> (c = HYPHEN \<and> LF \<in> set (takeWhile isSpace r)) \<and> noBreakHyphen r)"

text \<open>Single code units separated by single spaces.\<close>

definition spaced :: "jsstring \<Rightarrow> jsstring" where
  "spaced ls = join [SP] (map (\<lambda>c. [c]) ls)"

section \<open>The repeated-line filter\<close>

lemma dedupLoop_remdups_adj:
  "dedupLoop acc ls = (if acc = [] then remdups_adj ls else butlast acc @ remdups_adj (last acc # ls))"
proof (induction ls arbitrary: acc)
  case Nil
  then show ?case by simp
next
  case (Cons l ls)
  show ?case
  proof (cases "acc = []")
    case True
    then show ?thesis by (simp add: Cons.IH)
  next
    case False
    then show ?thesis by (simp add: Cons.IH butlast_append)
  qed
qed

lemma dedupLoop_Nil: "dedupLoop [] ls = remdups_adj ls"
  by (simp add: dedupLoop_remdups_adj)

lemma proto_key_in: "str ''__proto__'' \<in> set objectPrototypeKeys"
  by (simp add: objectPrototypeKeys_def)

lemma countLoop_plain:
  assumes "l \<notin> set objectPrototypeKeys"
  shows "f l = None \<Longrightarrow> getFrequency (countLoop f ls) l = (if count_list ls l = 0 then Undefined else Number (count_list ls l))"
    and "f l = Some (Number n) \<Longrightarrow> getFrequency (countLoop f ls) l = Number (n + count_list ls l)"
proof (induction ls arbitrary: f n)
  case Nil
  { case 1 then show ?case using assms by (simp add: getFrequency_def) }
  { case 2 then show ?case by (simp add: getFrequency_def) }
next
  case (Cons a ls)
  have ne: "l \<noteq> str ''__proto__''" using assms proto_key_in by auto
  { case 1
    show ?case
    proof (cases "a = l")
      case True
      have "setFrequency f a (orZeroPlusOne (getFrequency f a)) l = Some (Number 1)"
        using True 1 ne assms by (simp add: setFrequency_def getFrequency_def)
      from Cons.IH(2)[of "setFrequency f a (orZeroPlusOne (getFrequency f a))" 1, OF this]
      show ?thesis using True by simp
    next
      case False
      have "setFrequency f a (orZeroPlusOne (getFrequency f a)) l = None"
        using False 1 by (simp add: setFrequency_def)
      from Cons.IH(1)[of "setFrequency f a (orZeroPlusOne (getFrequency f a))", OF this]
      show ?thesis using False by simp
    qed }
  { case 2
    show ?case
    proof (cases "a = l")
      case True
      have "setFrequency f a (orZeroPlusOne (getFrequency f a)) l = Some (Number (n + 1))"
        using True 2 ne by (simp add: setFrequency_def getFrequency_def)
      from Cons.IH(2)[of "setFrequency f a (orZeroPlusOne (getFrequency f a))" "n + 1", OF this]
      show ?thesis using True by simp
    next
      case False
      have "setFrequency f a (orZeroPlusOne (getFrequency f a)) l = Some (Number n)"
        using False 2 by (simp add: setFrequency_def)
      from Cons.IH(2)[of "setFrequency f a (orZeroPlusOne (getFrequency f a))" n, OF this]
      show ?thesis using False by simp
    qed }
qed

lemma countLoop_proto:
  assumes "l \<in> set objectPrototypeKeys"
  shows "f l = None \<or> f l = Some NotANumber \<Longrightarrow> getFrequency (countLoop f ls) l = NotANumber"
proof (induction ls arbitrary: f)
  case Nil
  then show ?case using assms by (auto simp: getFrequency_def)
next
  case (Cons a ls)
  have "setFrequency f a (orZeroPlusOne (getFrequency f a)) l = None \<or>
        setFrequency f a (orZeroPlusOne (getFrequency f a)) l = Some NotANumber"
    using Cons.prems assms by (auto simp: setFrequency_def getFrequency_def)
  from Cons.IH[of "setFrequency f a (orZeroPlusOne (getFrequency f a))", OF this]
  show ?case by simp
qed

lemma frequency_gt2:
  "greaterThan2 (getFrequency (countLoop Map.empty ls) l)
     \<longleftrightarrow> l \<notin> set objectPrototypeKeys \<and> count_list ls l > 2"
proof (cases "l \<in> set objectPrototypeKeys")
  case True
  then show ?thesis using countLoop_proto[of l Map.empty ls] by simp
next
  case False
  then show ?thesis using countLoop_plain(1)[of l Map.empty ls] by simp
qed

lemma removeRepeatedLines_eq:
  "removeRepeatedLines text =
     join [LF] (filter (\<lambda>l. \<not> (l \<notin> set objectPrototypeKeys \<and> count_list (originalLines text) l > 2 \<and> length l < 80))
        (remdups_adj (originalLines text)))"
proof -
  have "filter (\<lambda>line. \<not> (greaterThan2 (getFrequency (countLoop Map.empty (originalLines text)) line)
            \<and> length line < 80)) ls
      = filter (\<lambda>l. \<not> (l \<notin> set objectPrototypeKeys \<and> count_list (originalLines text) l > 2
            \<and> length l < 80)) ls" for ls
    by (rule filter_cong) (auto simp: frequency_gt2)
  then show ?thesis
    by (simp add: removeRepeatedLines_def Let_def dedupLoop_Nil)
qed


lemma dropWhile_suffix_last: "dropWhile P xs \<noteq> [] \<Longrightarrow> last (dropWhile P xs) = last xs"
  by (induction xs) (auto split: if_splits)

lemma trimmed_trim: "trimmed (trim s)"
proof (cases "trim s = []")
  case True
  then show ?thesis by (simp add: trimmed_def)
next
  case False
  let ?t = "dropWhile isSpace s"
  let ?u = "dropWhile isSpace (rev ?t)"
  have ts: "trim s = rev ?u" by (simp add: trim_def trimEnd_def trimStart_def)
  with False have une: "?u \<noteq> []" by simp
  have tne: "?t \<noteq> []"
  proof
    assume "?t = []"
    then have "?u = []" by (simp only: rev.simps dropWhile.simps)
    with une show False by blast
  qed
  have "last (trim s) = hd ?u" using une by (simp add: ts last_rev)
  moreover have "\<not> isSpace (hd ?u)" using une by (rule hd_dropWhile)
  moreover have "hd (trim s) = last ?u" using une by (simp add: ts hd_rev)
  moreover have "last ?u = last (rev ?t)" using une by (rule dropWhile_suffix_last)
  moreover have "last (rev ?t) = hd ?t" using tne by (simp add: last_rev)
  moreover have "\<not> isSpace (hd ?t)" using tne by (rule hd_dropWhile)
  ultimately show ?thesis by (simp add: trimmed_def)
qed

lemma trim_trimmed: "trimmed s \<Longrightarrow> trim s = s"
proof (cases "s = []")
  case True
  then show ?thesis by (simp add: trim_def trimEnd_def trimStart_def)
next
  case False
  assume "trimmed s"
  with False have h: "\<not> isSpace (hd s)" and l: "\<not> isSpace (last s)"
    by (auto simp: trimmed_def)
  from False h have a: "dropWhile isSpace s = s" by (cases s) auto
  from False l have "\<not> isSpace (hd (rev s))" by (simp add: hd_rev)
  with False have "dropWhile isSpace (rev s) = rev s" by (cases "rev s") auto
  with a show ?thesis by (simp add: trim_def trimEnd_def trimStart_def)
qed

lemma set_trim: "set (trim s) \<subseteq> set s"
proof -
  have "set (trim s) = set (dropWhile isSpace (rev (dropWhile isSpace s)))"
    by (simp add: trim_def trimEnd_def trimStart_def)
  also have "\<dots> \<subseteq> set (rev (dropWhile isSpace s))" by (rule set_dropWhileD[THEN subsetI]) 
  also have "\<dots> \<subseteq> set s" using set_dropWhileD by fastforce
  finally show ?thesis .
qed

lemma split_ne: "split s \<noteq> []"
  by (induction s) (auto split: list.splits)

lemma split_no_LF: "l \<in> set (split s) \<Longrightarrow> LF \<notin> set l"
proof (induction s arbitrary: l)
  case Nil
  then show ?case by simp
next
  case (Cons c cs)
  show ?case
  proof (cases "c = LF")
    case True
    with Cons show ?thesis by auto
  next
    case False
    obtain x xs where sp: "split cs = x # xs" using split_ne[of cs] by (cases "split cs") auto
    with False Cons.prems have "l = c # x \<or> l \<in> set xs" by simp
    then show ?thesis
    proof
      assume "l = c # x"
      moreover have "LF \<notin> set x" using Cons.IH[of x] sp by simp
      ultimately show ?thesis using False by auto
    next
      assume "l \<in> set xs"
      then show ?thesis using Cons.IH[of l] sp by simp
    qed
  qed
qed

lemma split_no_LF_id: "LF \<notin> set l \<Longrightarrow> split l = [l]"
  by (induction l) auto

lemma split_append_LF: "LF \<notin> set l \<Longrightarrow> split (l @ LF # s) = l # split s"
  by (induction l) auto

lemma split_join:
  "ls \<noteq> [] \<Longrightarrow> \<forall>l \<in> set ls. LF \<notin> set l \<Longrightarrow> split (join [LF] ls) = ls"
proof (induction ls)
  case Nil
  then show ?case by simp
next
  case (Cons l ls)
  show ?case
  proof (cases ls)
    case Nil
    with Cons.prems show ?thesis by (simp add: split_no_LF_id)
  next
    case (Cons m ms)
    with Cons.prems Cons.IH have "split (join [LF] ls) = ls" by simp
    moreover have "join [LF] (l # ls) = l @ LF # join [LF] ls" using Cons by simp
    moreover have "LF \<notin> set l" using Cons.prems by simp
    ultimately show ?thesis by (simp add: split_append_LF)
  qed
qed


lemma join_nonempty:
  "ls \<noteq> [] \<Longrightarrow> \<forall>l \<in> set ls. l \<noteq> [] \<Longrightarrow>
     join sep ls \<noteq> [] \<and> hd (join sep ls) = hd (hd ls) \<and> last (join sep ls) = last (last ls)"
proof (induction ls)
  case Nil
  then show ?case by simp
next
  case (Cons l ls)
  show ?case
  proof (cases ls)
    case Nil
    with Cons.prems show ?thesis by simp
  next
    case (Cons m ms)
    with Cons.prems Cons.IH
    have "join sep ls \<noteq> [] \<and> last (join sep ls) = last (last ls)" by simp
    moreover have "join sep (l # ls) = l @ sep @ join sep ls" using Cons by simp
    moreover have "l \<noteq> []" using Cons.prems by simp
    ultimately show ?thesis using Cons by simp
  qed
qed

lemma originalLines_props:
  assumes "l \<in> set (originalLines text)"
  shows "l \<noteq> []" and "trimmed l" and "LF \<notin> set l"
proof -
  from assms obtain x where x: "x \<in> set (split text)" and l: "l = trim x" and ne: "l \<noteq> []"
    by (auto simp: originalLines_def)
  show "l \<noteq> []" by (rule ne)
  show "trimmed l" unfolding l by (rule trimmed_trim)
  have "LF \<notin> set x" using x by (rule split_no_LF)
  then show "LF \<notin> set l" unfolding l using set_trim[of x] by auto
qed

lemma removeRepeatedLines_lines:
  obtains ls where "removeRepeatedLines text = join [LF] ls"
    and "set ls \<subseteq> set (originalLines text)"
proof
  let ?ls = "filter (\<lambda>l. \<not> (l \<notin> set objectPrototypeKeys \<and> count_list (originalLines text) l > 2 \<and> length l < 80))
        (remdups_adj (originalLines text))"
  show "removeRepeatedLines text = join [LF] ?ls" by (rule removeRepeatedLines_eq)
  show "set ?ls \<subseteq> set (originalLines text)" by auto
qed

lemma removeRepeatedLines_at_most_twice:
  assumes "\<forall>l \<in> set (originalLines text). count_list (originalLines text) l \<le> 2"
  shows "removeRepeatedLines text = join [LF] (remdups_adj (originalLines text))"
proof -
  let ?L = "originalLines text"
  have "\<forall>l \<in> set (remdups_adj ?L).
          \<not> (l \<notin> set objectPrototypeKeys \<and> count_list ?L l > 2 \<and> length l < 80)"
    using assms by auto
  then have "filter (\<lambda>l. \<not> (l \<notin> set objectPrototypeKeys \<and> count_list ?L l > 2 \<and> length l < 80))
      (remdups_adj ?L) = remdups_adj ?L"
    by (simp only: filter_id_conv)
  then show ?thesis by (simp only: removeRepeatedLines_eq)
qed

text \<open>
  C10. Whatever the input text, the string \<open>removeRepeatedLines\<close> returns (which is the
  final output of the pipeline) has no leading or trailing whitespace, and, unless it is
  empty, each of its lines is non-empty and has no leading or trailing whitespace: no line
  is empty or blank.
\<close>

theorem C10_output_lines_trimmed:
  "trim (removeRepeatedLines text) = removeRepeatedLines text \<and>
   (removeRepeatedLines text = [] \<or>
    (\<forall>line \<in> set (split (removeRepeatedLines text)). trim line \<noteq> [] \<and> trim line = line))"
proof -
  obtain ls where out: "removeRepeatedLines text = join [LF] ls"
    and sub: "set ls \<subseteq> set (originalLines text)"
    by (rule removeRepeatedLines_lines)
  have ne: "\<forall>l \<in> set ls. l \<noteq> []" using sub originalLines_props(1) by blast
  have tr: "\<forall>l \<in> set ls. trimmed l" using sub originalLines_props(2) by blast
  have lf: "\<forall>l \<in> set ls. LF \<notin> set l" using sub originalLines_props(3) by blast
  show ?thesis
  proof (cases "ls = []")
    case True
    then have "removeRepeatedLines text = []" using out by simp
    then show ?thesis by (simp add: trim_def trimEnd_def trimStart_def)
  next
    case False
    have sp: "split (removeRepeatedLines text) = ls"
      unfolding out using False lf by (rule split_join)
    have j: "join [LF] ls \<noteq> [] \<and> hd (join [LF] ls) = hd (hd ls)
               \<and> last (join [LF] ls) = last (last ls)"
      using False ne by (rule join_nonempty)
    have "trimmed (hd ls)" "trimmed (last ls)" "hd ls \<noteq> []" "last ls \<noteq> []"
      using False tr ne by simp_all
    then have "trimmed (join [LF] ls)" using j by (simp add: trimmed_def)
    then have a: "trim (removeRepeatedLines text) = removeRepeatedLines text"
      unfolding out by (rule trim_trimmed)
    have "\<forall>line \<in> set ls. trim line \<noteq> [] \<and> trim line = line"
      using ne tr by (simp add: trim_trimmed)
    with a sp show ?thesis by auto
  qed
qed

section \<open>The rewrites of \<open>extractTextFromPDF\<close>\<close>

lemma takeWhile_append_nonspace:
  "r \<noteq> [] \<Longrightarrow> \<not> P (last r) \<Longrightarrow> takeWhile P (r @ s) = takeWhile P r"
  by (induction r) (auto split: if_splits)

lemma dropWhile_append_nonspace:
  "r \<noteq> [] \<Longrightarrow> \<not> P (last r) \<Longrightarrow> dropWhile P (r @ s) = dropWhile P r @ s"
  by (induction r) (auto split: if_splits)

lemma dropWhile_nonspace_last:
  "r \<noteq> [] \<Longrightarrow> \<not> P (last r) \<Longrightarrow> dropWhile P r \<noteq> [] \<and> last (dropWhile P r) = last r"
  by (induction r) (auto split: if_splits)

lemma collapseBlankLines_append:
  "a = [] \<or> \<not> isSpace (last a) \<Longrightarrow>
     collapseBlankLines (a @ s) = collapseBlankLines a @ collapseBlankLines s"
proof (induction a rule: collapseBlankLines.induct)
  case 1
  then show ?case by simp
next
  case (2 c r)
  show ?case
  proof (cases "r = []")
    case True
    with "2.prems" have "\<not> isSpace c" by simp
    then have "c \<noteq> LF" by (auto simp: isSpace_def LF_def)
    with True show ?thesis by simp
  next
    case False
    with "2.prems" have nl: "\<not> isSpace (last r)" by simp
    have tw: "takeWhile isSpace (r @ s) = takeWhile isSpace r"
      using False nl by (rule takeWhile_append_nonspace)
    have dw: "dropWhile isSpace (r @ s) = dropWhile isSpace r @ s"
      using False nl by (rule dropWhile_append_nonspace)
    have dl: "dropWhile isSpace r \<noteq> [] \<and> last (dropWhile isSpace r) = last r"
      using False nl by (rule dropWhile_nonspace_last)
    show ?thesis
    proof (cases "c = LF \<and> LF \<in> set (takeWhile isSpace r)")
      case True
      let ?a = "afterLastLF (takeWhile isSpace r) @ dropWhile isSpace r"
      have "?a = [] \<or> \<not> isSpace (last ?a)" using dl nl by simp
      with "2.IH"(1)[OF True] have "collapseBlankLines (?a @ s) = collapseBlankLines ?a @ collapseBlankLines s"
        by simp
      with True tw dw show ?thesis by simp
    next
      case F: False
      have "r = [] \<or> \<not> isSpace (last r)" using nl by simp
      with "2.IH"(2)[OF F] have "collapseBlankLines (r @ s) = collapseBlankLines r @ collapseBlankLines s"
        by simp
      with F tw show ?thesis by auto
    qed
  qed
qed

lemma afterLastLF_snoc: "afterLastLF (ws @ [LF]) = []"
  by (simp add: afterLastLF_def)

lemma isSpace_LF: "isSpace LF"
  by (simp add: isSpace_def LF_def)

lemma collapseBlankLines_break:
  assumes mid: "\<forall>c \<in> set mid. isSpace c" and b: "b = [] \<or> \<not> isSpace (hd b)"
  shows "collapseBlankLines (LF # mid @ LF # b) = LF # LF # collapseBlankLines b"
proof -
  have tw: "takeWhile isSpace (mid @ LF # b) = mid @ [LF]"
  proof -
    have "takeWhile isSpace ((mid @ [LF]) @ b) = (mid @ [LF]) @ takeWhile isSpace b"
      using mid isSpace_LF by (intro takeWhile_append2) auto
    moreover have "takeWhile isSpace b = []" using b by (cases b) auto
    ultimately show ?thesis by simp
  qed
  have dw: "dropWhile isSpace (mid @ LF # b) = b"
  proof -
    have "dropWhile isSpace ((mid @ [LF]) @ b) = dropWhile isSpace b"
      using mid isSpace_LF by (intro dropWhile_append2) auto
    moreover have "dropWhile isSpace b = b" using b by (cases b) auto
    ultimately show ?thesis by simp
  qed
  show ?thesis by (simp add: tw dw afterLastLF_snoc)
qed

text \<open>
  C1 (as amended). Step 1 alone does what the claim says of the output: between a text
  \<open>a\<close> that ends in a non-blank code unit and a text \<open>b\<close> that begins with one, the
  newline that ends \<open>a\<close>, any blank lines (whitespace \<open>mid\<close>) and the newline before
  \<open>b\<close> become exactly two newlines, one blank line, and \<open>a\<close> and \<open>b\<close> are rewritten on
  their own.
\<close>

theorem C1_blank_lines_collapsed_in_step_1:
  assumes "a \<noteq> []" and "\<not> isSpace (last a)" and "b \<noteq> []" and "\<not> isSpace (hd b)"
    and "\<forall>c \<in> set mid. isSpace c"
  shows "collapseBlankLines (a @ LF # mid @ LF # b)
           = collapseBlankLines a @ [LF, LF] @ collapseBlankLines b"
proof -
  have "collapseBlankLines (a @ LF # mid @ LF # b)
          = collapseBlankLines a @ collapseBlankLines (LF # mid @ LF # b)"
    using assms(2) by (intro collapseBlankLines_append) simp
  also have "collapseBlankLines (LF # mid @ LF # b) = LF # LF # collapseBlankLines b"
    using assms(5) assms(4) by (intro collapseBlankLines_break) simp_all
  finally show ?thesis by simp
qed


lemma isSpace_HYPHEN: "\<not> isSpace HYPHEN"
  by (simp add: isSpace_def HYPHEN_def)

lemma isWordChar_HYPHEN: "\<not> isWordChar HYPHEN"
  by (simp add: isWordChar_def HYPHEN_def)

lemma takeWhile_append_stop: "\<not> P y \<Longrightarrow> takeWhile P (xs @ y # ys) = takeWhile P xs"
  by (induction xs) auto

lemma dropWhile_append_stop: "\<not> P y \<Longrightarrow> dropWhile P (xs @ y # ys) = dropWhile P xs @ y # ys"
  by (induction xs) auto

lemma takeWhile_HYPHEN: "takeWhile isSpace (r @ HYPHEN # t) = takeWhile isSpace r"
  using isSpace_HYPHEN by (rule takeWhile_append_stop)

lemma dropWhile_HYPHEN: "dropWhile isSpace (r @ HYPHEN # t) = dropWhile isSpace r @ HYPHEN # t"
  using isSpace_HYPHEN by (rule dropWhile_append_stop)

lemma joinSpacedHyphens_HYPHEN: "joinSpacedHyphens (HYPHEN # t) = HYPHEN # joinSpacedHyphens t"
  by (cases t) (simp_all add: isWordChar_HYPHEN)

lemma dropWhile_last: "dropWhile P xs = d # r \<Longrightarrow> r \<noteq> [] \<Longrightarrow> last r = last xs"
  using dropWhile_suffix_last[of P xs] by (cases "r") auto

lemma joinSpacedHyphens_match:
  assumes "spacedHyphenMatch c r"
  shows "joinSpacedHyphens (c # HYPHEN # r)
           = c # hd (dropWhile isSpace r) # joinSpacedHyphens (tl (dropWhile isSpace r))"
proof -
  from assms obtain d r' where d: "dropWhile isSpace r = d # r'"
    unfolding spacedHyphenMatch_def by (cases "dropWhile isSpace r") blast+
  with assms have "isWordChar c" "takeWhile isSpace r \<noteq> []" "isWordChar d"
    unfolding spacedHyphenMatch_def by simp_all
  then show ?thesis by (simp add: d del: takeWhile_eq_Nil_iff)
qed

lemma joinSpacedHyphens_nomatch:
  assumes "\<not> (h = HYPHEN \<and> spacedHyphenMatch c r)"
  shows "joinSpacedHyphens (c # h # r) = c # joinSpacedHyphens (h # r)"
proof (cases "dropWhile isSpace r")
  case Nil
  then show ?thesis by (simp del: dropWhile_eq_Nil_conv)
next
  case (Cons d r')
  with assms have "\<not> (isWordChar c \<and> h = HYPHEN \<and> takeWhile isSpace r \<noteq> [] \<and> isWordChar d)"
    unfolding spacedHyphenMatch_def by auto
  then show ?thesis using Cons by (auto simp del: takeWhile_eq_Nil_iff)
qed

lemma spacedHyphenMatch_append:
  "spacedHyphenMatch c (r @ HYPHEN # t) = spacedHyphenMatch c r"
proof -
  have tw: "takeWhile isSpace (r @ HYPHEN # t) = takeWhile isSpace r"
    using isSpace_HYPHEN by (rule takeWhile_append_stop)
  have dw: "dropWhile isSpace (r @ HYPHEN # t) = dropWhile isSpace r @ HYPHEN # t"
    using isSpace_HYPHEN by (rule dropWhile_append_stop)
  show ?thesis
  proof (cases "dropWhile isSpace r")
    case Nil
    then show ?thesis unfolding spacedHyphenMatch_def tw dw
      by (simp add: isWordChar_HYPHEN del: dropWhile_eq_Nil_conv)
  next
    case (Cons d r')
    then show ?thesis unfolding spacedHyphenMatch_def tw dw
      by (simp del: dropWhile_eq_Nil_conv)
  qed
qed

lemma joinSpacedHyphens_split:
  assumes "u = [] \<or> \<not> spacedHyphenMatch (last u) t"
  shows "joinSpacedHyphens (u @ HYPHEN # t) = joinSpacedHyphens u @ HYPHEN # joinSpacedHyphens t"
  using assms
proof (induction "length u" arbitrary: u rule: less_induct)
  case less
  show ?case
  proof (cases u)
    case Nil
    then show ?thesis by (simp add: joinSpacedHyphens_HYPHEN)
  next
    case u1: (Cons c u')
    show ?thesis
    proof (cases u')
      case Nil
      with u1 less.prems have "\<not> spacedHyphenMatch c t" by simp
      then have "joinSpacedHyphens (c # HYPHEN # t) = c # joinSpacedHyphens (HYPHEN # t)"
        by (intro joinSpacedHyphens_nomatch) simp
      with u1 Nil show ?thesis by (simp add: joinSpacedHyphens_HYPHEN)
    next
      case (Cons h r)
      have u: "u = c # h # r" using u1 Cons by simp
      show ?thesis
      proof (cases "h = HYPHEN \<and> spacedHyphenMatch c r")
        case True
        then have m: "spacedHyphenMatch c r" and h: "h = HYPHEN" by simp_all
        from m obtain d r' where d: "dropWhile isSpace r = d # r'"
          unfolding spacedHyphenMatch_def by (cases "dropWhile isSpace r") blast+
        have dw: "dropWhile isSpace (r @ HYPHEN # t) = d # r' @ HYPHEN # t"
          using dropWhile_HYPHEN[of r t] d by simp
        have m': "spacedHyphenMatch c (r @ HYPHEN # t)"
          using m by (simp add: spacedHyphenMatch_append)
        have lhs: "joinSpacedHyphens (u @ HYPHEN # t) = c # d # joinSpacedHyphens (r' @ HYPHEN # t)"
          using joinSpacedHyphens_match[OF m'] by (simp add: u h dw)
        have rhs: "joinSpacedHyphens u = c # d # joinSpacedHyphens r'"
          using joinSpacedHyphens_match[OF m] by (simp add: u h d)
        have "length r' < length (dropWhile isSpace r)" using d by simp
        also have "\<dots> \<le> length r" by (rule length_dropWhile_le)
        finally have len: "length r' < length u" using u by simp
        have rne: "r \<noteq> []" using d by auto
        have "r' = [] \<or> last r' = last u"
          using dropWhile_last[OF d] u rne by (cases "r' = []") auto
        with less.prems u have "r' = [] \<or> \<not> spacedHyphenMatch (last r') t" by auto
        from less.hyps[OF len this] lhs rhs show ?thesis by simp
      next
        case False
        then have "\<not> (h = HYPHEN \<and> spacedHyphenMatch c (r @ HYPHEN # t))"
          by (simp add: spacedHyphenMatch_append)
        then have lhs: "joinSpacedHyphens (u @ HYPHEN # t) = c # joinSpacedHyphens ((h # r) @ HYPHEN # t)"
          using joinSpacedHyphens_nomatch[of h c "r @ HYPHEN # t"] by (simp add: u)
        have rhs: "joinSpacedHyphens u = c # joinSpacedHyphens (h # r)"
          using joinSpacedHyphens_nomatch[OF False] by (simp add: u)
        have "h # r = [] \<or> \<not> spacedHyphenMatch (last (h # r)) t"
          using less.prems u by simp
        from less.hyps[OF _ this] lhs rhs u show ?thesis by simp
      qed
    qed
  qed
qed

lemma removeLineBreakHyphens_append:
  "removeLineBreakHyphens (u @ HYPHEN # t) = removeLineBreakHyphens u @ removeLineBreakHyphens (HYPHEN # t)"
proof (induction u rule: removeLineBreakHyphens.induct)
  case 1
  show ?case by simp
next
  case (2 c r)
  have tw: "takeWhile isSpace (r @ HYPHEN # t) = takeWhile isSpace r"
    using isSpace_HYPHEN by (rule takeWhile_append_stop)
  have dw: "dropWhile isSpace (r @ HYPHEN # t) = dropWhile isSpace r @ HYPHEN # t"
    using isSpace_HYPHEN by (rule dropWhile_append_stop)
  show ?case
  proof (cases "c = HYPHEN \<and> LF \<in> set (takeWhile isSpace r)")
    case True
    with "2.IH"(1) tw dw show ?thesis by simp
  next
    case False
    with "2.IH"(2) tw show ?thesis by auto
  qed
qed

lemma removeLineBreakHyphens_fires:
  assumes "\<forall>c \<in> set ws. isSpace c"
  shows "removeLineBreakHyphens (HYPHEN # ws @ LF # t) = removeLineBreakHyphens (dropWhile isSpace t)"
proof -
  have "takeWhile isSpace ((ws @ [LF]) @ t) = (ws @ [LF]) @ takeWhile isSpace t"
    using assms isSpace_LF by (intro takeWhile_append2) auto
  then have "LF \<in> set (takeWhile isSpace (ws @ LF # t))" by simp
  moreover have "dropWhile isSpace ((ws @ [LF]) @ t) = dropWhile isSpace t"
    using assms isSpace_LF by (intro dropWhile_append2) auto
  ultimately show ?thesis by simp
qed


text \<open>
  C4 (as amended). Only the same-line rule needs a word character on each side. It leaves
  a hyphen in place, and rewrites the text before and after it separately, unless a word
  character stands immediately before the hyphen, whitespace immediately after it and a
  word character after that whitespace. The end-of-line rule removes every hyphen whose
  following whitespace holds a newline, with all the whitespace behind it, whatever
  stands before the hyphen or after the whitespace.
\<close>

theorem C4_hyphen_rules:
  "(u = [] \<or> \<not> spacedHyphenMatch (last u) t \<longrightarrow>
      joinSpacedHyphens (u @ HYPHEN # t)
        = joinSpacedHyphens u @ HYPHEN # joinSpacedHyphens t) \<and>
   ((\<forall>c \<in> set ws. isSpace c) \<longrightarrow>
      removeLineBreakHyphens (u @ HYPHEN # ws @ LF # t)
        = removeLineBreakHyphens u @ removeLineBreakHyphens (dropWhile isSpace t))"
proof (intro conjI impI)
  assume "u = [] \<or> \<not> spacedHyphenMatch (last u) t"
  then show "joinSpacedHyphens (u @ HYPHEN # t)
        = joinSpacedHyphens u @ HYPHEN # joinSpacedHyphens t"
    by (rule joinSpacedHyphens_split)
next
  assume ws: "\<forall>c \<in> set ws. isSpace c"
  have "removeLineBreakHyphens (u @ HYPHEN # ws @ LF # t)
          = removeLineBreakHyphens u @ removeLineBreakHyphens (HYPHEN # ws @ LF # t)"
    by (rule removeLineBreakHyphens_append)
  also have "removeLineBreakHyphens (HYPHEN # ws @ LF # t)
          = removeLineBreakHyphens (dropWhile isSpace t)"
    using ws by (rule removeLineBreakHyphens_fires)
  finally show "removeLineBreakHyphens (u @ HYPHEN # ws @ LF # t)
        = removeLineBreakHyphens u @ removeLineBreakHyphens (dropWhile isSpace t)" .
qed


lemma noSpacePair_Cons:
  "noSpacePair (c # s) \<longleftrightarrow> noSpacePair s \<and> (s = [] \<or> \<not> isSpace c \<or> \<not> isSpace (hd s))"
  by (cases s) auto

lemma noSpacePair_append:
  "noSpacePair (a @ b) \<longleftrightarrow>
     noSpacePair a \<and> noSpacePair b \<and> (a = [] \<or> b = [] \<or> \<not> isSpace (last a) \<or> \<not> isSpace (hd b))"
proof (induction a)
  case Nil
  then show ?case by simp
next
  case (Cons c a)
  show ?case
  proof (cases "a = []")
    case True
    then show ?thesis by (auto simp: noSpacePair_Cons)
  next
    case False
    then have "hd (a @ b) = hd a" by simp
    with False Cons show ?thesis by (auto simp: noSpacePair_Cons)
  qed
qed

lemma noSpacePair_rev: "noSpacePair (rev s) = noSpacePair s"
proof (induction s)
  case Nil
  then show ?case by simp
next
  case (Cons c s)
  show ?case
  proof (cases "s = []")
    case True
    then show ?thesis by simp
  next
    case False
    then show ?thesis
      using Cons by (auto simp: noSpacePair_append noSpacePair_Cons last_rev hd_rev)
  qed
qed

lemma noSpacePair_dropWhile: "noSpacePair s \<Longrightarrow> noSpacePair (dropWhile P s)"
  by (induction s) (auto simp: noSpacePair_Cons)

lemma noSpacePair_trim: "noSpacePair s \<Longrightarrow> noSpacePair (trim s)"
  by (simp add: trim_def trimEnd_def trimStart_def noSpacePair_rev noSpacePair_dropWhile)

lemma collapseSpaces_hd:
  "collapseSpaces s = [] \<longleftrightarrow> s = []"
  "s \<noteq> [] \<Longrightarrow> isSpace (hd (collapseSpaces s)) \<longleftrightarrow> isSpace (hd s)"
  by (cases s; simp add: isSpace_def SP_def)+

lemma noSpacePair_collapseSpaces: "noSpacePair (collapseSpaces s)"
proof (induction s rule: collapseSpaces.induct)
  case 1
  show ?case by simp
next
  case (2 c r)
  show ?case
  proof (cases "isSpace c \<and> takeWhile isSpace r \<noteq> []")
    case True
    let ?d = "dropWhile isSpace r"
    have "?d = [] \<or> \<not> isSpace (hd ?d)" using hd_dropWhile[of isSpace r] by blast
    then have "collapseSpaces ?d = [] \<or> \<not> isSpace (hd (collapseSpaces ?d))"
      using collapseSpaces_hd[of ?d] by blast
    moreover have "noSpacePair (collapseSpaces ?d)" using "2.IH"(1)[OF True] .
    moreover have "collapseSpaces (c # r) = SP # collapseSpaces ?d" using True by simp
    ultimately show ?thesis by (simp only: noSpacePair_Cons; blast)
  next
    case False
    have "\<not> isSpace c \<or> r = [] \<or> \<not> isSpace (hd r)" using False by (cases r) auto
    then have "\<not> isSpace c \<or> collapseSpaces r = [] \<or> \<not> isSpace (hd (collapseSpaces r))"
      using collapseSpaces_hd[of r] by blast
    moreover have "noSpacePair (collapseSpaces r)" using "2.IH"(2)[OF False] .
    moreover have "collapseSpaces (c # r) = c # collapseSpaces r" using False by auto
    ultimately show ?thesis by (simp only: noSpacePair_Cons; blast)
  qed
qed

lemma collapseSpaces_id: "noSpacePair s \<Longrightarrow> collapseSpaces s = s"
proof (induction s rule: collapseSpaces.induct)
  case 1
  show ?case by simp
next
  case (2 c r)
  from "2.prems" have "\<not> (isSpace c \<and> takeWhile isSpace r \<noteq> [])"
    by (cases r) auto
  moreover from "2.prems" have "noSpacePair r" by (simp add: noSpacePair_Cons)
  ultimately show ?case using "2.IH"(2) by auto
qed

lemma removeLineBreakHyphens_hd:
  "removeLineBreakHyphens s \<noteq> [] \<Longrightarrow> isSpace (hd (removeLineBreakHyphens s)) \<Longrightarrow>
     s \<noteq> [] \<and> isSpace (hd s)"
proof (induction s rule: removeLineBreakHyphens.induct)
  case 1
  then show ?case by simp
next
  case (2 c r)
  show ?case
  proof (cases "c = HYPHEN \<and> LF \<in> set (takeWhile isSpace r)")
    case True
    with "2.prems" "2.IH"(1)
    have "dropWhile isSpace r \<noteq> [] \<and> isSpace (hd (dropWhile isSpace r))" by simp
    then show ?thesis using hd_dropWhile[of isSpace r] by blast
  next
    case False
    with "2.prems" show ?thesis by auto
  qed
qed

lemma noSpacePair_removeLineBreakHyphens:
  "noSpacePair s \<Longrightarrow> noSpacePair (removeLineBreakHyphens s)"
proof (induction s rule: removeLineBreakHyphens.induct)
  case 1
  show ?case by simp
next
  case (2 c r)
  from "2.prems" have r: "noSpacePair r" by (simp add: noSpacePair_Cons)
  show ?case
  proof (cases "c = HYPHEN \<and> LF \<in> set (takeWhile isSpace r)")
    case True
    have "noSpacePair (dropWhile isSpace r)" using r by (rule noSpacePair_dropWhile)
    with "2.IH"(1)[OF True] True show ?thesis by simp
  next
    case False
    have ih: "noSpacePair (removeLineBreakHyphens r)" using "2.IH"(2)[OF False r] .
    have "removeLineBreakHyphens r = [] \<or> \<not> isSpace c \<or> \<not> isSpace (hd (removeLineBreakHyphens r))"
    proof (cases "removeLineBreakHyphens r \<noteq> [] \<and> isSpace (hd (removeLineBreakHyphens r))")
      case True
      then have "r \<noteq> [] \<and> isSpace (hd r)" using removeLineBreakHyphens_hd by blast
      with "2.prems" have "\<not> isSpace c" by (auto simp: noSpacePair_Cons)
      then show ?thesis by simp
    next
      case False
      then show ?thesis by blast
    qed
    moreover have "removeLineBreakHyphens (c # r) = c # removeLineBreakHyphens r"
      using False by auto
    ultimately show ?thesis using ih by (simp only: noSpacePair_Cons; blast)
  qed
qed


lemma isWordChar_not_isSpace: "isWordChar c \<Longrightarrow> \<not> isSpace c"
  unfolding isWordChar_def isSpace_def word_le_nat_alt
  by (cases "unat c < 128") auto

lemma joinSpacedHyphens_hd:
  "s \<noteq> [] \<Longrightarrow> joinSpacedHyphens s \<noteq> [] \<and> hd (joinSpacedHyphens s) = hd s"
proof (cases s rule: joinSpacedHyphens.cases)
  case 1
  assume "s \<noteq> []"
  with 1 show ?thesis by simp
next
  case (2 c)
  then show ?thesis by simp
next
  case (3 c h r)
  show ?thesis
  proof (cases "h = HYPHEN \<and> spacedHyphenMatch c r")
    case True
    then show ?thesis using joinSpacedHyphens_match[of c r] 3 by simp
  next
    case False
    then show ?thesis using joinSpacedHyphens_nomatch[of h c r] 3 by simp
  qed
qed

lemma noSpacePair_tl: "noSpacePair s \<Longrightarrow> noSpacePair (tl s)"
  by (cases s) (auto simp: noSpacePair_Cons)

lemma noSpacePair_joinSpacedHyphens:
  "noSpacePair s \<Longrightarrow> noSpacePair (joinSpacedHyphens s)"
proof (induction "length s" arbitrary: s rule: less_induct)
  case less
  show ?case
  proof (cases s rule: joinSpacedHyphens.cases)
    case 1
    then show ?thesis by simp
  next
    case (2 c)
    then show ?thesis by simp
  next
    case (3 c h r)
    from less.prems 3 have hr: "noSpacePair (h # r)" and r: "noSpacePair r"
      by (simp_all add: noSpacePair_Cons)
    show ?thesis
    proof (cases "h = HYPHEN \<and> spacedHyphenMatch c r")
      case True
      let ?d = "dropWhile isSpace r"
      from True have c: "isWordChar c" and d: "isWordChar (hd ?d)"
        by (simp_all add: spacedHyphenMatch_def)
      have "length (tl ?d) \<le> length ?d" by simp
      also have "\<dots> \<le> length r" by (rule length_dropWhile_le)
      finally have len: "length (tl ?d) < length s" using 3 by simp
      have "noSpacePair (tl ?d)" using r by (intro noSpacePair_tl noSpacePair_dropWhile)
      from less.hyps[OF len this] have "noSpacePair (joinSpacedHyphens (tl ?d))" .
      moreover have "joinSpacedHyphens s = c # hd ?d # joinSpacedHyphens (tl ?d)"
        using True joinSpacedHyphens_match[of c r] 3 by simp
      ultimately show ?thesis
        using isWordChar_not_isSpace[OF c] isWordChar_not_isSpace[OF d]
        by (simp add: noSpacePair_Cons)
    next
      case False
      have len: "length (h # r) < length s" using 3 by simp
      from less.hyps[OF len hr] have ih: "noSpacePair (joinSpacedHyphens (h # r))" .
      have hd: "joinSpacedHyphens (h # r) \<noteq> [] \<and> hd (joinSpacedHyphens (h # r)) = h"
        using joinSpacedHyphens_hd[of "h # r"] by simp
      have "\<not> isSpace c \<or> \<not> isSpace h" using less.prems 3 by simp
      moreover have "joinSpacedHyphens s = c # joinSpacedHyphens (h # r)"
        using False joinSpacedHyphens_nomatch[of h c r] 3 by simp
      ultimately show ?thesis using ih hd by (simp add: noSpacePair_Cons)
    qed
  qed
qed

lemma split_first_hd: "split s = l # ls \<Longrightarrow> l \<noteq> [] \<Longrightarrow> hd l = hd s"
  by (cases s) (auto split: if_splits list.splits)

lemma noSpacePair_split: "noSpacePair s \<Longrightarrow> x \<in> set (split s) \<Longrightarrow> noSpacePair x"
proof (induction s arbitrary: x)
  case Nil
  then show ?case by simp
next
  case (Cons c cs)
  from Cons.prems have cs: "noSpacePair cs" by (simp add: noSpacePair_Cons)
  show ?case
  proof (cases "c = LF")
    case True
    with Cons.prems have "x = [] \<or> x \<in> set (split cs)" by simp
    then show ?thesis using Cons.IH[OF cs] by auto
  next
    case False
    obtain l ls where sp: "split cs = l # ls" using split_ne[of cs] by (cases "split cs") auto
    with False Cons.prems have "x = c # l \<or> x \<in> set ls" by simp
    then show ?thesis
    proof
      assume x: "x = c # l"
      have l: "noSpacePair l" using Cons.IH[OF cs, of l] sp by simp
      have "l = [] \<or> \<not> isSpace c \<or> \<not> isSpace (hd l)"
      proof (cases "l = []")
        case True
        then show ?thesis by simp
      next
        case F: False
        then have "hd l = hd cs" using sp by (intro split_first_hd)
        moreover have "cs \<noteq> []" using sp F by (cases cs) auto
        ultimately show ?thesis using Cons.prems(1) by (auto simp: noSpacePair_Cons)
      qed
      with l show ?thesis unfolding x by (simp only: noSpacePair_Cons; blast)
    next
      assume "x \<in> set ls"
      then show ?thesis using Cons.IH[OF cs, of x] sp by simp
    qed
  qed
qed

lemma noSpacePair_join:
  "\<forall>l \<in> set ls. noSpacePair l \<and> l \<noteq> [] \<and> trimmed l \<Longrightarrow> noSpacePair (join [LF] ls)"
proof (induction ls)
  case Nil
  then show ?case by simp
next
  case (Cons l ls)
  show ?case
  proof (cases ls)
    case Nil
    with Cons.prems show ?thesis by simp
  next
    case c: (Cons m ms)
    have ne: "ls \<noteq> []" "\<forall>l \<in> set ls. l \<noteq> []" using c Cons.prems by auto
    from join_nonempty[OF ne, of "[LF]"]
    have j: "join [LF] ls \<noteq> []" "hd (join [LF] ls) = hd m" using c by simp_all
    have m: "\<not> isSpace (hd m)" using Cons.prems c by (auto simp: trimmed_def)
    have l: "l \<noteq> []" "\<not> isSpace (last l)" "noSpacePair l"
      using Cons.prems by (auto simp: trimmed_def)
    have ih: "noSpacePair (join [LF] ls)" using Cons.IH Cons.prems by simp
    have "noSpacePair (LF # join [LF] ls)" using ih j m by (simp add: noSpacePair_Cons)
    then have "noSpacePair (l @ LF # join [LF] ls)" using l by (simp add: noSpacePair_append)
    then show ?thesis using c by simp
  qed
qed

lemma trimmed_join:
  assumes "\<forall>l \<in> set ls. l \<noteq> [] \<and> trimmed l"
  shows "trimmed (join [LF] ls)"
proof (cases "ls = []")
  case True
  then show ?thesis by (simp add: trimmed_def)
next
  case False
  have j: "join [LF] ls \<noteq> [] \<and> hd (join [LF] ls) = hd (hd ls)
               \<and> last (join [LF] ls) = last (last ls)"
    using False assms by (intro join_nonempty) auto
  have "trimmed (hd ls)" "trimmed (last ls)" "hd ls \<noteq> []" "last ls \<noteq> []"
    using False assms by simp_all
  then show ?thesis using j by (simp add: trimmed_def)
qed

lemma trimmed_removeRepeatedLines: "trimmed (removeRepeatedLines text)"
proof -
  obtain ls where out: "removeRepeatedLines text = join [LF] ls"
    and sub: "set ls \<subseteq> set (originalLines text)"
    by (rule removeRepeatedLines_lines)
  have "\<forall>l \<in> set ls. l \<noteq> [] \<and> trimmed l"
    using sub originalLines_props(1,2) by blast
  then show ?thesis unfolding out by (rule trimmed_join)
qed

lemma noSpacePair_removeRepeatedLines:
  assumes "noSpacePair text"
  shows "noSpacePair (removeRepeatedLines text)"
proof -
  obtain ls where out: "removeRepeatedLines text = join [LF] ls"
    and sub: "set ls \<subseteq> set (originalLines text)"
    by (rule removeRepeatedLines_lines)
  have "noSpacePair l" if "l \<in> set (originalLines text)" for l
  proof -
    from that obtain x where "x \<in> set (split text)" "l = trim x"
      by (auto simp: originalLines_def)
    then show ?thesis using assms noSpacePair_split noSpacePair_trim by blast
  qed
  then have "\<forall>l \<in> set ls. noSpacePair l \<and> l \<noteq> [] \<and> trimmed l"
    using sub originalLines_props(1,2) by blast
  then show ?thesis unfolding out by (rule noSpacePair_join)
qed

lemma collapseBlankLines_id: "noSpacePair s \<Longrightarrow> collapseBlankLines s = s"
proof (induction s rule: collapseBlankLines.induct)
  case 1
  show ?case by simp
next
  case (2 c r)
  have "\<not> (c = LF \<and> LF \<in> set (takeWhile isSpace r))"
  proof
    assume a: "c = LF \<and> LF \<in> set (takeWhile isSpace r)"
    then have "r \<noteq> [] \<and> isSpace (hd r)" by (cases r) (auto split: if_splits)
    with a "2.prems" isSpace_LF show False by (auto simp: noSpacePair_Cons)
  qed
  moreover from "2.prems" have "noSpacePair r" by (simp add: noSpacePair_Cons)
  ultimately show ?case using "2.IH"(2) by auto
qed

lemma collapseBlankLines_LF_LF: "collapseBlankLines [LF, LF] = [LF, LF]"
  by (simp add: isSpace_LF afterLastLF_def)

lemma trim_append_LF_LF: "trimmed y \<Longrightarrow> trim (y @ [LF, LF]) = y"
proof (cases "y = []")
  case True
  then show ?thesis by (simp add: trim_def trimEnd_def trimStart_def isSpace_LF)
next
  case False
  assume "trimmed y"
  with False have h: "\<not> isSpace (hd y)" and l: "\<not> isSpace (last y)"
    by (auto simp: trimmed_def)
  from False h have a: "dropWhile isSpace (y @ [LF, LF]) = y @ [LF, LF]" by (cases y) auto
  from False l have "\<not> isSpace (hd (rev y))" by (simp add: hd_rev)
  with False have "dropWhile isSpace (rev y) = rev y" by (cases "rev y") auto
  then have "dropWhile isSpace (rev (y @ [LF, LF])) = rev y" by (simp add: isSpace_LF)
  with a show ?thesis by (simp add: trim_def trimEnd_def trimStart_def)
qed

lemma removeLineBreakHyphens_id: "noBreakHyphen s \<Longrightarrow> removeLineBreakHyphens s = s"
  by (induction s) auto

lemma noBreakHyphen_dropWhile: "noBreakHyphen s \<Longrightarrow> noBreakHyphen (dropWhile P s)"
  by (induction s) auto

lemma noBreakHyphen_tl: "noBreakHyphen s \<Longrightarrow> noBreakHyphen (tl s)"
  by (cases s) auto

lemma noBreakHyphen_suffix: "noBreakHyphen (p @ q) \<Longrightarrow> noBreakHyphen q"
  by (induction p) auto

lemma takeWhile_removeLineBreakHyphens:
  "takeWhile isSpace (removeLineBreakHyphens s) = takeWhile isSpace s"
proof (induction s)
  case Nil
  show ?case by simp
next
  case (Cons c r)
  show ?case
  proof (cases "isSpace c")
    case True
    then have "c \<noteq> HYPHEN" using isSpace_HYPHEN by auto
    with True Cons show ?thesis by simp
  next
    case False
    show ?thesis
    proof (cases "c = HYPHEN \<and> LF \<in> set (takeWhile isSpace r)")
      case fire: True
      let ?d = "dropWhile isSpace r"
      have "removeLineBreakHyphens ?d = [] \<or> \<not> isSpace (hd (removeLineBreakHyphens ?d))"
        using removeLineBreakHyphens_hd[of ?d] hd_dropWhile[of isSpace r] by blast
      then have "takeWhile isSpace (removeLineBreakHyphens ?d) = []"
        by (cases "removeLineBreakHyphens ?d") auto
      with fire False show ?thesis by simp
    next
      case nofire: False
      with False show ?thesis by auto
    qed
  qed
qed

lemma noBreakHyphen_removeLineBreakHyphens: "noBreakHyphen (removeLineBreakHyphens s)"
proof (induction s rule: removeLineBreakHyphens.induct)
  case 1
  show ?case by simp
next
  case (2 c r)
  show ?case
  proof (cases "c = HYPHEN \<and> LF \<in> set (takeWhile isSpace r)")
    case True
    with "2.IH"(1) show ?thesis by simp
  next
    case False
    then have e: "removeLineBreakHyphens (c # r) = c # removeLineBreakHyphens r" by auto
    have ih: "noBreakHyphen (removeLineBreakHyphens r)" using "2.IH"(2)[OF False] .
    show ?thesis unfolding e using False ih
      by (simp add: takeWhile_removeLineBreakHyphens)
  qed
qed

lemma takeWhile_joinSpacedHyphens:
  "takeWhile isSpace (joinSpacedHyphens s) = takeWhile isSpace s"
proof (induction s)
  case Nil
  show ?case by simp
next
  case (Cons c r)
  show ?case
  proof (cases "isSpace c")
    case True
    then have nw: "\<not> isWordChar c" using isWordChar_not_isSpace by blast
    have "joinSpacedHyphens (c # r) = c # joinSpacedHyphens r"
    proof (cases r)
      case Nil
      then show ?thesis by simp
    next
      case (Cons h r')
      have "\<not> (h = HYPHEN \<and> spacedHyphenMatch c r')" using nw by (simp add: spacedHyphenMatch_def)
      then show ?thesis unfolding Cons by (rule joinSpacedHyphens_nomatch)
    qed
    with True Cons show ?thesis by simp
  next
    case False
    have "hd (joinSpacedHyphens (c # r)) = c" "joinSpacedHyphens (c # r) \<noteq> []"
      using joinSpacedHyphens_hd[of "c # r"] by simp_all
    then have "takeWhile isSpace (joinSpacedHyphens (c # r)) = []"
      using False by (cases "joinSpacedHyphens (c # r)") auto
    with False show ?thesis by simp
  qed
qed

lemma isWordChar_not_HYPHEN: "isWordChar c \<Longrightarrow> c \<noteq> HYPHEN"
  using isWordChar_HYPHEN by auto

lemma noBreakHyphen_joinSpacedHyphens:
  "noBreakHyphen s \<Longrightarrow> noBreakHyphen (joinSpacedHyphens s)"
proof (induction "length s" arbitrary: s rule: less_induct)
  case less
  show ?case
  proof (cases s rule: joinSpacedHyphens.cases)
    case 1
    then show ?thesis by simp
  next
    case (2 c)
    with less.prems show ?thesis by simp
  next
    case (3 c h r)
    from less.prems 3 have hr: "noBreakHyphen (h # r)" and r: "noBreakHyphen r"
      by simp_all
    show ?thesis
    proof (cases "h = HYPHEN \<and> spacedHyphenMatch c r")
      case True
      let ?d = "dropWhile isSpace r"
      from True have c: "isWordChar c" and d: "isWordChar (hd ?d)"
        by (simp_all add: spacedHyphenMatch_def)
      have "length (tl ?d) \<le> length ?d" by simp
      also have "\<dots> \<le> length r" by (rule length_dropWhile_le)
      finally have len: "length (tl ?d) < length s" using 3 by simp
      have "noBreakHyphen (tl ?d)" using r by (intro noBreakHyphen_tl noBreakHyphen_dropWhile)
      from less.hyps[OF len this] have "noBreakHyphen (joinSpacedHyphens (tl ?d))" .
      moreover have "joinSpacedHyphens s = c # hd ?d # joinSpacedHyphens (tl ?d)"
        using True joinSpacedHyphens_match[of c r] 3 by simp
      ultimately show ?thesis
        using isWordChar_not_HYPHEN[OF c] isWordChar_not_HYPHEN[OF d] by simp
    next
      case False
      have len: "length (h # r) < length s" using 3 by simp
      from less.hyps[OF len hr] have ih: "noBreakHyphen (joinSpacedHyphens (h # r))" .
      have "\<not> (c = HYPHEN \<and> LF \<in> set (takeWhile isSpace (h # r)))"
        using less.prems 3 by simp
      then have "\<not> (c = HYPHEN \<and> LF \<in> set (takeWhile isSpace (joinSpacedHyphens (h # r))))"
        unfolding takeWhile_joinSpacedHyphens .
      moreover have "joinSpacedHyphens s = c # joinSpacedHyphens (h # r)"
        using False joinSpacedHyphens_nomatch[of h c r] 3 by simp
      ultimately show ?thesis using ih by (simp only: noBreakHyphen.simps) blast
    qed
  qed
qed


lemma LF_not_HYPHEN: "LF \<noteq> HYPHEN"
  by (simp add: LF_def HYPHEN_def)

lemma noBreakHyphen_no_LF: "LF \<notin> set l \<Longrightarrow> noBreakHyphen l"
proof (induction l)
  case Nil
  show ?case by simp
next
  case (Cons c l)
  have "set (takeWhile isSpace l) \<subseteq> set l" by (auto dest: set_takeWhileD)
  with Cons show ?case by auto
qed

lemma noBreakHyphen_line:
  "LF \<notin> set l \<Longrightarrow> l \<noteq> [] \<Longrightarrow> \<not> isSpace (last l) \<Longrightarrow> last l \<noteq> HYPHEN \<Longrightarrow>
     noBreakHyphen rest \<Longrightarrow> noBreakHyphen (l @ LF # rest)"
proof (induction l)
  case Nil
  then show ?case by simp
next
  case (Cons c l)
  show ?case
  proof (cases "l = []")
    case True
    with Cons.prems show ?thesis by (simp add: LF_not_HYPHEN)
  next
    case False
    with Cons.prems have ih: "noBreakHyphen (l @ LF # rest)" using Cons.IH by simp
    have "takeWhile isSpace (l @ LF # rest) = takeWhile isSpace l"
      using False Cons.prems(3) by (intro takeWhile_append_nonspace) simp_all
    moreover have "set (takeWhile isSpace l) \<subseteq> set l" by (auto dest: set_takeWhileD)
    ultimately have "LF \<notin> set (takeWhile isSpace (l @ LF # rest))"
      using Cons.prems(1) by auto
    with ih show ?thesis by simp
  qed
qed

lemma noBreakHyphen_join:
  assumes "\<forall>l \<in> set ls. LF \<notin> set l \<and> l \<noteq> [] \<and> trimmed l"
    and "\<forall>l \<in> set (butlast ls). last l \<noteq> HYPHEN"
  shows "noBreakHyphen (join [LF] ls)"
  using assms
proof (induction ls)
  case Nil
  show ?case by simp
next
  case (Cons l ls)
  show ?case
  proof (cases ls)
    case Nil
    with Cons.prems show ?thesis by (simp add: noBreakHyphen_no_LF)
  next
    case c: (Cons m ms)
    have ih: "noBreakHyphen (join [LF] ls)" using Cons.IH Cons.prems c by simp
    have l: "LF \<notin> set l" "l \<noteq> []" "\<not> isSpace (last l)" "last l \<noteq> HYPHEN"
      using Cons.prems c by (auto simp: trimmed_def)
    have "noBreakHyphen (l @ LF # join [LF] ls)" using l ih by (rule noBreakHyphen_line)
    then show ?thesis using c by simp
  qed
qed

lemma butlast_filter_hyphen:
  "\<forall>l \<in> set (butlast xs). Q l \<Longrightarrow> \<forall>l \<in> set (butlast (filter P xs)). Q l"
proof (induction xs)
  case Nil
  show ?case by simp
next
  case (Cons x xs)
  show ?case
  proof (cases "xs = []")
    case True
    then show ?thesis by simp
  next
    case False
    with Cons.prems have x: "Q x" and xs: "\<forall>l \<in> set (butlast xs). Q l" by simp_all
    from Cons.IH[OF xs] x show ?thesis by (auto dest: in_set_butlastD)
  qed
qed

lemma butlast_remdups_adj_hyphen:
  "\<forall>l \<in> set (butlast xs). Q l \<Longrightarrow> \<forall>l \<in> set (butlast (remdups_adj xs)). Q l"
proof (induction xs rule: remdups_adj.induct)
  case 1
  show ?case by simp
next
  case (2 x)
  show ?case by simp
next
  case (3 x y xs)
  from "3.prems" have x: "Q x" and yxs: "\<forall>l \<in> set (butlast (y # xs)). Q l" by simp_all
  show ?case
  proof (cases "x = y")
    case True
    with "3.IH"(1) yxs show ?thesis by simp
  next
    case False
    with "3.IH"(2)[OF False yxs] x show ?thesis by (auto dest: in_set_butlastD)
  qed
qed

lemma trim_last_split:
  assumes "trim x \<noteq> []" and "last (trim x) = c"
  obtains p ws where "x = p @ c # ws" and "\<forall>w \<in> set ws. isSpace w"
proof -
  let ?x' = "dropWhile isSpace x"
  let ?w = "takeWhile isSpace (rev ?x')"
  let ?u = "dropWhile isSpace (rev ?x')"
  have t: "trim x = rev ?u" by (simp add: trim_def trimEnd_def trimStart_def)
  with assms(1) have une: "?u \<noteq> []" by simp
  then obtain u' where u: "?u = hd ?u # u'" by (cases ?u) auto
  have "hd ?u = c" using assms(2) une unfolding t by (simp add: last_rev)
  with u have u2: "?u = c # u'" by simp
  have "rev ?x' = ?w @ ?u" by simp
  then have "rev ?x' = ?w @ c # u'" using u2 by simp
  then have "?x' = rev (?w @ c # u')" by (metis rev_rev_ident)
  then have x': "?x' = rev u' @ c # rev ?w" by simp
  have "x = takeWhile isSpace x @ ?x'" by simp
  then have "x = (takeWhile isSpace x @ rev u') @ c # rev ?w" using x' by simp
  moreover have "\<forall>w \<in> set (rev ?w). isSpace w" by (auto dest: set_takeWhileD)
  ultimately show ?thesis by (rule that)
qed

lemma split_first_line:
  "split cs = l # ls \<Longrightarrow> ls \<noteq> [] \<Longrightarrow> \<exists>rest. cs = l @ LF # rest"
proof (induction cs arbitrary: l)
  case Nil
  then show ?case by simp
next
  case (Cons c cs)
  show ?case
  proof (cases "c = LF")
    case True
    with Cons.prems show ?thesis by auto
  next
    case False
    obtain l' ls' where sp: "split cs = l' # ls'" using split_ne[of cs] by (cases "split cs") auto
    with False Cons.prems have l: "l = c # l'" and ls: "ls = ls'" by simp_all
    from sp ls have "split cs = l' # ls" by simp
    from Cons.IH[OF this Cons.prems(2)] obtain rest where "cs = l' @ LF # rest" by auto
    then show ?thesis using l by simp
  qed
qed

lemma noBreakHyphen_hyphen_break:
  assumes "\<forall>w \<in> set ws. isSpace w"
  shows "\<not> noBreakHyphen (p @ HYPHEN # ws @ LF # rest)"
proof
  assume "noBreakHyphen (p @ HYPHEN # ws @ LF # rest)"
  then have "noBreakHyphen (HYPHEN # ws @ LF # rest)" by (rule noBreakHyphen_suffix)
  then have n: "LF \<notin> set (takeWhile isSpace (ws @ LF # rest))" by simp
  have "takeWhile isSpace ((ws @ [LF]) @ rest) = (ws @ [LF]) @ takeWhile isSpace rest"
    using assms isSpace_LF by (intro takeWhile_append2) auto
  then have "LF \<in> set (takeWhile isSpace (ws @ LF # rest))" by simp
  with n show False by contradiction
qed

lemma noBreakHyphen_split_lines:
  "noBreakHyphen s \<Longrightarrow>
     \<forall>x \<in> set (butlast (split s)). \<not> (trim x \<noteq> [] \<and> last (trim x) = HYPHEN)"
proof (induction s)
  case Nil
  show ?case by simp
next
  case (Cons c cs)
  from Cons.prems have cs: "noBreakHyphen cs" by simp
  note ih = Cons.IH[OF cs]
  obtain l ls where sp: "split cs = l # ls" using split_ne[of cs] by (cases "split cs") auto
  show ?case
  proof (cases "c = LF")
    case True
    have "trim [] = []" by (simp add: trim_def trimEnd_def trimStart_def)
    with True ih sp show ?thesis by simp
  next
    case False
    show ?thesis
    proof (cases "ls = []")
      case True
      with False sp show ?thesis by simp
    next
      case ne: False
      have rest: "\<forall>x \<in> set (butlast ls). \<not> (trim x \<noteq> [] \<and> last (trim x) = HYPHEN)"
        using ih sp ne by simp
      have "\<not> (trim (c # l) \<noteq> [] \<and> last (trim (c # l)) = HYPHEN)"
      proof
        assume a: "trim (c # l) \<noteq> [] \<and> last (trim (c # l)) = HYPHEN"
        then obtain p ws where pw: "c # l = p @ HYPHEN # ws" and ws: "\<forall>w \<in> set ws. isSpace w"
          using trim_last_split[of "c # l" HYPHEN] by blast
        from split_first_line[OF sp ne] obtain r where "cs = l @ LF # r" by blast
        then have "c # cs = (c # l) @ LF # r" by simp
        then have "c # cs = p @ HYPHEN # ws @ LF # r" unfolding pw by simp
        with Cons.prems noBreakHyphen_hyphen_break[OF ws, of p r] show False by simp
      qed
      with rest False sp ne show ?thesis by simp
    qed
  qed
qed

lemma noBreakHyphen_removeRepeatedLines:
  assumes "noBreakHyphen text"
  shows "noBreakHyphen (removeRepeatedLines text)"
proof -
  let ?Q = "\<lambda>l. \<not> (l \<noteq> [] \<and> last l = HYPHEN)"
  let ?ls = "filter (\<lambda>l. \<not> (l \<notin> set objectPrototypeKeys \<and> count_list (originalLines text) l > 2 \<and> length l < 80))
        (remdups_adj (originalLines text))"
  have out: "removeRepeatedLines text = join [LF] ?ls" by (rule removeRepeatedLines_eq)
  have sub: "set ?ls \<subseteq> set (originalLines text)" by auto
  have "\<forall>x \<in> set (butlast (split text)). ?Q (trim x)"
    using assms by (rule noBreakHyphen_split_lines)
  then have "\<forall>l \<in> set (butlast (map trim (split text))). ?Q l"
    by (simp add: map_butlast[symmetric])
  then have "\<forall>l \<in> set (butlast (originalLines text)). ?Q l"
    unfolding originalLines_def by (rule butlast_filter_hyphen)
  then have "\<forall>l \<in> set (butlast (remdups_adj (originalLines text))). ?Q l"
    by (rule butlast_remdups_adj_hyphen)
  then have q: "\<forall>l \<in> set (butlast ?ls). ?Q l"
    by (rule butlast_filter_hyphen)
  have props: "\<forall>l \<in> set ?ls. LF \<notin> set l \<and> l \<noteq> [] \<and> trimmed l"
    using sub originalLines_props by blast
  have "\<forall>l \<in> set (butlast ?ls). last l \<noteq> HYPHEN"
  proof
    fix l assume l: "l \<in> set (butlast ?ls)"
    then have "l \<in> set ?ls" by (rule in_set_butlastD)
    with props have "l \<noteq> []" by blast
    with q l show "last l \<noteq> HYPHEN" by blast
  qed
  with props show ?thesis unfolding out by (rule noBreakHyphen_join)
qed

lemma noBreakHyphen_cleanText: "noBreakHyphen (cleanText x)"
  unfolding cleanText_def Let_def
  by (intro noBreakHyphen_removeRepeatedLines noBreakHyphen_joinSpacedHyphens
        noBreakHyphen_removeLineBreakHyphens)

lemma noSpacePair_cleanText: "noSpacePair (cleanText x)"
  unfolding cleanText_def Let_def
  by (intro noSpacePair_removeRepeatedLines noSpacePair_joinSpacedHyphens
        noSpacePair_removeLineBreakHyphens noSpacePair_collapseSpaces)

lemma trimmed_cleanText: "trimmed (cleanText x)"
  unfolding cleanText_def Let_def by (rule trimmed_removeRepeatedLines)

lemma cleanText_second_pass:
  assumes "noSpacePair y" and "trimmed y" and "noBreakHyphen y"
    and "joinLetters None y = y" and "joinSpacedHyphens y = y" and "removeRepeatedLines y = y"
  shows "cleanText (pageLoop [] [[y]]) = y"
proof -
  have p: "pageLoop [] [[y]] = y @ [LF, LF]" by simp
  have "y = [] \<or> \<not> isSpace (last y)" using assms(2) by (auto simp: trimmed_def)
  then have "collapseBlankLines (y @ [LF, LF]) = collapseBlankLines y @ collapseBlankLines [LF, LF]"
    by (rule collapseBlankLines_append)
  also have "collapseBlankLines y = y" using assms(1) by (rule collapseBlankLines_id)
  also have "collapseBlankLines [LF, LF] = [LF, LF]" by (rule collapseBlankLines_LF_LF)
  finally have "collapseBlankLines (y @ [LF, LF]) = y @ [LF, LF]" .
  then have s1: "trim (collapseBlankLines (pageLoop [] [[y]])) = y"
    using assms(2) by (simp add: p trim_append_LF_LF)
  have s3: "collapseSpaces y = y" using assms(1) by (rule collapseSpaces_id)
  have s4: "removeLineBreakHyphens y = y" using assms(3) by (rule removeLineBreakHyphens_id)
  show ?thesis unfolding cleanText_def Let_def s1
    by (simp only: assms(4) s3 s4 assms(5) assms(6))
qed

text \<open>
  C7 (as amended). A second pass over a cleaned text \<open>y\<close>, fed back as a single page of
  one fragment, returns \<open>y\<close> unchanged whenever the letter-run joiner, the same-line
  hyphen rule and the repeated-line filter each leave \<open>y\<close> unchanged; the whitespace
  steps 1 and 3 and the end-of-line hyphen rule never change a cleaned text.
\<close>

theorem C7_second_pass_unchanged:
  assumes "extractTextFromPDF (Some pages) = Inr y"
    and "joinLetters None y = y" and "joinSpacedHyphens y = y"
    and "removeRepeatedLines y = y"
  shows "extractTextFromPDF (Some [[y]]) = Inr y"
proof -
  from assms(1) have y: "y = cleanText (pageLoop [] pages)"
    by (simp add: extractTextFromPDF_def)
  have "noSpacePair y" "trimmed y" "noBreakHyphen y" unfolding y
    by (rule noSpacePair_cleanText, rule trimmed_cleanText, rule noBreakHyphen_cleanText)
  then have "cleanText (pageLoop [] [[y]]) = y"
    using assms(2-4) by (rule cleanText_second_pass)
  then show ?thesis by (simp add: extractTextFromPDF_def)
qed


lemma isSpace_SP: "isSpace SP"
  by (simp add: isSpace_def SP_def)

lemma isLetter_SP: "\<not> isLetter SP"
  by (simp add: isLetter_def SP_def)

lemma isWordChar_SP: "\<not> isWordChar SP"
  by (simp add: isWordChar_def SP_def)

lemma spaced_simps:
  "spaced [] = []" "spaced [a] = [a]" "spaced (a # b # ls) = a # SP # spaced (b # ls)"
  by (simp_all add: spaced_def)

lemma letterRun_None_word:
  assumes "isWordChar e"
  shows "letterRun (d # e # rest) = None"
proof -
  have "takeWhile isSpace (e # rest) = []"
    using isWordChar_not_isSpace[OF assms] by simp
  then show ?thesis by (simp del: takeWhile_eq_Nil_iff)
qed

lemma letterRun_spaced:
  assumes "isWordChar d" and "isWordChar e"
  shows "\<forall>c \<in> set (a # b # ls). isLetter c \<and> isWordChar c \<Longrightarrow>
         letterRun (spaced (a # b # ls) @ SP # d # e # rest) = Some (spaced (a # b # ls))"
proof (induction ls arbitrary: a b)
  case Nil
  then have a: "isLetter a" and b: "isLetter b" "isWordChar b" by simp_all
  have nb: "\<not> isSpace b" using b(2) by (rule isWordChar_not_isSpace)
  have nd: "\<not> isSpace d" using assms(1) by (rule isWordChar_not_isSpace)
  have inner: "letterRun (b # SP # d # e # rest) = None"
    using b nd isSpace_SP assms letterRun_None_word[OF assms(2), of d rest]
    by (simp del: letterRun.simps(2) add: letterRun.simps(2)[of b])
  have "letterRun (a # SP # b # SP # d # e # rest) = Some [a, SP, b]"
    using a b nb isSpace_SP isWordChar_SP inner
    by (simp del: letterRun.simps(2) add: letterRun.simps(2)[of a])
  then show ?case by (simp add: spaced_simps)
next
  case (Cons c ls)
  then have a: "isLetter a" and b: "isWordChar b"
    and rest: "\<forall>x \<in> set (b # c # ls). isLetter x \<and> isWordChar x" by simp_all
  have nb: "\<not> isSpace b" using b by (rule isWordChar_not_isSpace)
  have ih: "letterRun (spaced (b # c # ls) @ SP # d # e # rest) = Some (spaced (b # c # ls))"
    using Cons.IH[OF rest] .
  have sp: "spaced (b # c # ls) @ SP # d # e # rest = b # SP # spaced (c # ls) @ SP # d # e # rest"
    by (simp add: spaced_simps)
  have "letterRun (a # SP # spaced (b # c # ls) @ SP # d # e # rest)
          = Some (a # SP # spaced (b # c # ls))"
    using a nb isSpace_SP ih unfolding sp
    by (simp del: letterRun.simps(2) add: letterRun.simps(2)[of a])
  then show ?case by (simp add: spaced_simps)
qed

lemma spaced_props:
  "\<forall>c \<in> set ls. \<not> isSpace c \<Longrightarrow> filter (\<lambda>x. \<not> isSpace x) (spaced ls) = ls"
  "ls \<noteq> [] \<Longrightarrow> last (spaced ls) = last ls \<and> spaced ls \<noteq> [] \<and> hd (spaced ls) = hd ls"
proof (induction ls rule: induct_list012)
  case 1
  { case 1 show ?case by (simp add: spaced_simps) }
  { case 2 then show ?case by simp }
next
  case (2 x)
  { case 1 then show ?case by (simp add: spaced_simps) }
  { case 2 show ?case by (simp add: spaced_simps) }
next
  case (3 x y zs)
  { case 1
    then have "filter (\<lambda>x. \<not> isSpace x) (spaced (y # zs)) = y # zs" using 3 by simp
    with 1 show ?case by (simp add: spaced_simps isSpace_SP) }
  { case 2
    have "last (spaced (y # zs)) = last (y # zs) \<and> spaced (y # zs) \<noteq> []" using 3 by simp
    then show ?case by (simp add: spaced_simps) }
qed

text \<open>
  Where the run and the word behind it are ASCII, the joiner fuses the run and leaves
  the word alone.
\<close>

lemma joinLetters_spaced_run:
  assumes ls: "2 \<le> length ls" "\<forall>c \<in> set ls. isLetter c \<and> isWordChar c"
    and d: "isWordChar d" and e: "isWordChar e"
    and wb: "wordBoundary prev (spaced ls @ SP # d # e # rest)"
  shows "joinLetters prev (spaced ls @ SP # d # e # rest)
           = ls @ SP # d # e # joinLetters (Some e) rest"
proof -
  from ls(1) obtain a b ls' where l: "ls = a # b # ls'"
    by (cases ls; cases "tl ls") auto
  let ?tail = "SP # d # e # rest"
  have run: "letterRun (spaced ls @ ?tail) = Some (spaced ls)"
    using letterRun_spaced[OF d e, of a b ls' rest] ls(2) unfolding l by blast
  have ns: "\<forall>c \<in> set ls. \<not> isSpace c" using ls(2) isWordChar_not_isSpace by blast
  have f: "filter (\<lambda>x. \<not> isSpace x) (spaced ls) = ls" using ns by (rule spaced_props(1))
  have lne: "ls \<noteq> []" using l by simp
  have sl: "last (spaced ls) = last ls" "spaced ls \<noteq> []" using spaced_props(2)[OF lne] by simp_all
  obtain r where r: "spaced ls = a # r" unfolding l by (simp add: spaced_simps)
  have dr: "drop (length (spaced ls) - 1) (r @ ?tail) = ?tail" unfolding r by simp
  have step: "joinLetters prev (spaced ls @ ?tail) = ls @ joinLetters (Some (last ls)) ?tail"
    using wb run f sl(1) dr unfolding r by simp
  have wl: "isWordChar (last ls)" using ls(2) lne by simp
  have t1: "joinLetters (Some (last ls)) ?tail = SP # joinLetters (Some SP) (d # e # rest)"
    using wl isWordChar_SP isLetter_SP by simp
  have t2: "joinLetters (Some SP) (d # e # rest) = d # joinLetters (Some d) (e # rest)"
    using d isWordChar_SP letterRun_None_word[OF e, of d rest]
    by (simp del: letterRun.simps(2))
  have t3: "joinLetters (Some d) (e # rest) = e # joinLetters (Some e) rest"
    using d e by simp
  show ?thesis unfolding step t1 t2 t3 by simp
qed

section \<open>Concrete runs\<close>

text \<open>
  C9. A document of zero pages: the page loop leaves \<open>fullText\<close> empty, every step maps
  the empty string to itself, and the function returns the empty string, not an error.
\<close>

theorem C9_zero_pages_empty_output:
  "extractTextFromPDF (Some []) = Inr [] \<and> pageLoop [] [] = [] \<and> cleanText [] = []"
  by code_simp

text \<open>
  C5. On the one-fragment page \<open>H I S T O R I A S de ejemplo\<close> the joiner, and the whole
  pipeline, return \<open>HISTORIAS de ejemplo\<close>. When the neighbouring word is \<open>m\<close>U+00E1\<open>s\<close>
  instead, its first letter is taken into the run and the space before it is lost:
  \<open>\b\<close> sees a word boundary between \<open>m\<close> and U+00E1, which \<open>\w\<close> does not
  contain, so \<open>m\<close> counts as a single-letter token. The same happens to a run behind a
  word that ends in an accented letter. With the unaccented \<open>mas\<close> the neighbour is left
  alone.
\<close>

theorem C5_accented_neighbour_fused:
  "extractTextFromPDF (Some [[str ''H I S T O R I A S de ejemplo'']])
     = Inr (str ''HISTORIAS de ejemplo'') \<and>
   joinLetters None (str ''H I S T O R I A S de ejemplo'') = str ''HISTORIAS de ejemplo'' \<and>
   extractTextFromPDF (Some [[str ''H I S T O R I A S m'' @ [0xE1] @ str ''s'']])
     = Inr (str ''HISTORIASm'' @ [0xE1] @ str ''s'') \<and>
   joinLetters None (str ''a b m'' @ [0xE1] @ str ''s'') = str ''abm'' @ [0xE1] @ str ''s'' \<and>
   joinLetters None (str ''est'' @ [0xE1] @ str '' a b cd'') = str ''est'' @ [0xE1] @ str ''ab cd'' \<and>
   extractTextFromPDF (Some [[str ''H I S T O R I A S mas'']]) = Inr (str ''HISTORIAS mas'')"
proof (intro conjI)
  show "extractTextFromPDF (Some [[str ''H I S T O R I A S de ejemplo'']])
     = Inr (str ''HISTORIAS de ejemplo'')"
    by code_simp
  show "joinLetters None (str ''H I S T O R I A S de ejemplo'') = str ''HISTORIAS de ejemplo''"
    by code_simp
  show "extractTextFromPDF (Some [[str ''H I S T O R I A S m'' @ [0xE1] @ str ''s'']])
     = Inr (str ''HISTORIASm'' @ [0xE1] @ str ''s'')"
    by code_simp
  show "joinLetters None (str ''a b m'' @ [0xE1] @ str ''s'') = str ''abm'' @ [0xE1] @ str ''s''"
    by code_simp
  show "joinLetters None (str ''est'' @ [0xE1] @ str '' a b cd'') = str ''est'' @ [0xE1] @ str ''ab cd''"
    by code_simp
  show "extractTextFromPDF (Some [[str ''H I S T O R I A S mas'']]) = Inr (str ''HISTORIAS mas'')"
    by code_simp
qed

text \<open>
  C3. The end-of-line form \<open>verifica-\<close>, newline, \<open>ci\<close>U+00F3\<open>n\<close> is joined into one
  word and \<open>well-known\<close> is unchanged, but the same-line form \<open>verifica - ci\<close>U+00F3\<open>n\<close>
  comes out unchanged: the expression \<open>(\w)-\s+(\w)\<close> wants the hyphen right behind the
  word character, and here a space stands between them.
\<close>

theorem C3_hyphenation_examples:
  "extractTextFromPDF (Some [[str ''verifica-'' @ [LF] @ str ''ci'' @ [0xF3] @ str ''n'']])
     = Inr (str ''verificaci'' @ [0xF3] @ str ''n'') \<and>
   extractTextFromPDF (Some [[str ''well-known'']]) = Inr (str ''well-known'') \<and>
   joinSpacedHyphens (removeLineBreakHyphens (str ''verifica - ci'' @ [0xF3] @ str ''n''))
     = str ''verifica - ci'' @ [0xF3] @ str ''n'' \<and>
   extractTextFromPDF (Some [[str ''verifica - ci'' @ [0xF3] @ str ''n'']])
     = Inr (str ''verifica - ci'' @ [0xF3] @ str ''n'')"
proof (intro conjI)
  show "extractTextFromPDF (Some [[str ''verifica-'' @ [LF] @ str ''ci'' @ [0xF3] @ str ''n'']])
     = Inr (str ''verificaci'' @ [0xF3] @ str ''n'')"
    by code_simp
  show "extractTextFromPDF (Some [[str ''well-known'']]) = Inr (str ''well-known'')"
    by code_simp
  show "joinSpacedHyphens (removeLineBreakHyphens (str ''verifica - ci'' @ [0xF3] @ str ''n''))
     = str ''verifica - ci'' @ [0xF3] @ str ''n''"
    by code_simp
  show "extractTextFromPDF (Some [[str ''verifica - ci'' @ [0xF3] @ str ''n'']])
     = Inr (str ''verifica - ci'' @ [0xF3] @ str ''n'')"
    by code_simp
qed

text \<open>
  C6. The run \<open>a\<close> U+00F1 \<open>o\<close> (small n with tilde between two single letters) is not
  fused: the character class lists the capital U+00D1 but not the small U+00F1. The same
  run in capitals, \<open>A\<close> U+00D1 \<open>O\<close>, is fused. A run that begins with an accented
  letter of the class, U+00E9 \<open>s\<close>, is not fused either: \<open>\b\<close> finds no word boundary
  before a letter that \<open>\w\<close> does not contain.
\<close>

theorem C6_small_n_tilde_not_joined:
  "\<not> isLetter 0xF1 \<and> isLetter 0xD1 \<and>
   joinLetters None (str ''a '' @ [0xF1] @ str '' o'') = str ''a '' @ [0xF1] @ str '' o'' \<and>
   extractTextFromPDF (Some [[str ''a '' @ [0xF1] @ str '' o'']])
     = Inr (str ''a '' @ [0xF1] @ str '' o'') \<and>
   extractTextFromPDF (Some [[str ''A '' @ [0xD1] @ str '' O'']])
     = Inr (str ''A'' @ [0xD1] @ str ''O'') \<and>
   isLetter 0xE9 \<and>
   extractTextFromPDF (Some [[[0xE9] @ str '' s'']]) = Inr ([0xE9] @ str '' s'')"
proof (intro conjI)
  show "isLetter 0xE9" by (simp add: isLetter_def)
  show "extractTextFromPDF (Some [[[0xE9] @ str '' s'']]) = Inr ([0xE9] @ str '' s'')"
    by code_simp
  show "\<not> isLetter 0xF1" by (simp add: isLetter_def)
  show "isLetter 0xD1" by (simp add: isLetter_def)
  show "joinLetters None (str ''a '' @ [0xF1] @ str '' o'') = str ''a '' @ [0xF1] @ str '' o''"
    by code_simp
  show "extractTextFromPDF (Some [[str ''a '' @ [0xF1] @ str '' o'']])
     = Inr (str ''a '' @ [0xF1] @ str '' o'')"
    by code_simp
  show "extractTextFromPDF (Some [[str ''A '' @ [0xD1] @ str '' O'']])
     = Inr (str ''A'' @ [0xD1] @ str ''O'')"
    by code_simp
qed

text \<open>
  C8. For every text, \<open>removeRepeatedLines\<close> works on the trimmed, non-empty lines of
  the text; its first loop keeps one line of every group of immediately consecutive equal
  lines, whatever their total frequency; and the output is that sequence without the
  lines the frequency rule removes. When no line occurs more than twice the rule removes
  nothing, and the output is exactly the trimmed lines with every such group collapsed
  to one line. The lines \<open>Title\<close>, \<open>Title\<close>, \<open>Body\<close> come out as \<open>Title\<close>, \<open>Body\<close>, also
  when the first \<open>Title\<close> carries a trailing space; with a third \<open>Title\<close> the group is
  collapsed all the same, and the frequency rule then removes the line.
\<close>

theorem C8_consecutive_duplicates:
  "originalLines text = filter (\<lambda>line. line \<noteq> []) (map trim (split text)) \<and>
   dedupLoop [] (originalLines text) = remdups_adj (originalLines text) \<and>
   removeRepeatedLines text =
     join [LF]
       (filter (\<lambda>l. \<not> (l \<notin> set objectPrototypeKeys \<and>
                        2 < count_list (originalLines text) l \<and> length l < 80))
          (remdups_adj (originalLines text))) \<and>
   ((\<forall>l \<in> set (originalLines text). count_list (originalLines text) l \<le> 2) \<longrightarrow>
      removeRepeatedLines text = join [LF] (remdups_adj (originalLines text))) \<and>
   removeRepeatedLines (join [LF] [str ''Title'', str ''Title'', str ''Body''])
     = join [LF] [str ''Title'', str ''Body''] \<and>
   removeRepeatedLines (join [LF] [str ''Title '', str ''Title'', str ''Body''])
     = join [LF] [str ''Title'', str ''Body''] \<and>
   removeRepeatedLines (join [LF] [str ''Title'', str ''Title'', str ''Title'', str ''Body''])
     = str ''Body''"
proof (intro conjI impI)
  show "originalLines text = filter (\<lambda>line. line \<noteq> []) (map trim (split text))"
    by (rule originalLines_def)
  show "dedupLoop [] (originalLines text) = remdups_adj (originalLines text)"
    by (rule dedupLoop_Nil)
  show "removeRepeatedLines text =
     join [LF]
       (filter (\<lambda>l. \<not> (l \<notin> set objectPrototypeKeys \<and>
                        2 < count_list (originalLines text) l \<and> length l < 80))
          (remdups_adj (originalLines text)))"
    by (rule removeRepeatedLines_eq)
  show "removeRepeatedLines text = join [LF] (remdups_adj (originalLines text))"
    if "\<forall>l \<in> set (originalLines text). count_list (originalLines text) l \<le> 2"
    using that by (rule removeRepeatedLines_at_most_twice)
  show "removeRepeatedLines (join [LF] [str ''Title'', str ''Title'', str ''Body''])
     = join [LF] [str ''Title'', str ''Body'']"
    by code_simp
  show "removeRepeatedLines (join [LF] [str ''Title '', str ''Title'', str ''Body''])
     = join [LF] [str ''Title'', str ''Body'']"
    by code_simp
  show "removeRepeatedLines (join [LF] [str ''Title'', str ''Title'', str ''Title'', str ''Body''])
     = str ''Body''"
    by code_simp
qed

text \<open>
  The statement of C8 at the lines \<open>Intro\<close> (with a leading space), \<open>Intro\<close> (with a
  trailing space), an empty line and \<open>End\<close>: no line occurs more than twice.
\<close>

theorem C8_witness:
  "originalLines (str '' Intro'' @ LF # str ''Intro '' @ LF # LF # str ''End'')
     = [str ''Intro'', str ''Intro'', str ''End''] \<and>
   removeRepeatedLines (str '' Intro'' @ LF # str ''Intro '' @ LF # LF # str ''End'')
     = join [LF] [str ''Intro'', str ''End'']"
proof -
  let ?t = "str '' Intro'' @ LF # str ''Intro '' @ LF # LF # str ''End''"
  have o: "originalLines ?t = [str ''Intro'', str ''Intro'', str ''End'']" by code_simp
  have ne: "str ''Intro'' \<noteq> str ''End''" by (simp add: str_def)
  have c: "\<forall>l \<in> set (originalLines ?t). count_list (originalLines ?t) l \<le> 2"
    unfolding o using ne by auto
  have r: "remdups_adj (originalLines ?t) = [str ''Intro'', str ''End'']"
    unfolding o using ne by simp
  from C8_consecutive_duplicates[of ?t] c
  have "removeRepeatedLines ?t = join [LF] (remdups_adj (originalLines ?t))" by blast
  then show ?thesis using o r by simp
qed

text \<open>
  C2. A short line that occurs three times is removed (\<open>Page Footer\<close>), unless it is the
  name of a member of \<open>Object.prototype\<close>: the line \<open>constructor\<close>, 11 code units long
  and occurring three times, is kept at each occurrence, because its entry in the
  table is not a number.
\<close>

theorem C2_prototype_key_line_kept:
  "removeRepeatedLines
     (join [LF] [str ''constructor'', str ''x'', str ''constructor'', str ''y'', str ''constructor''])
     = join [LF] [str ''constructor'', str ''x'', str ''constructor'', str ''y'', str ''constructor''] \<and>
   removeRepeatedLines
     (join [LF] [str ''Page Footer'', str ''x'', str ''Page Footer'', str ''y'', str ''Page Footer''])
     = join [LF] [str ''x'', str ''y'']"
proof
  show "removeRepeatedLines
     (join [LF] [str ''constructor'', str ''x'', str ''constructor'', str ''y'', str ''constructor''])
     = join [LF] [str ''constructor'', str ''x'', str ''constructor'', str ''y'', str ''constructor'']"
    by code_simp
  show "removeRepeatedLines
     (join [LF] [str ''Page Footer'', str ''x'', str ''Page Footer'', str ''y'', str ''Page Footer''])
     = join [LF] [str ''x'', str ''y'']"
    by code_simp
qed

text \<open>The statement of C10 at a text with padded lines and a blank line.\<close>

theorem C10_witness:
  "removeRepeatedLines (str ''  Title '' @ [LF, LF] @ str '' Body  '') = str ''Title'' @ [LF] @ str ''Body'' \<and>
   trim (str ''Title'' @ [LF] @ str ''Body'') = str ''Title'' @ [LF] @ str ''Body'' \<and>
   split (str ''Title'' @ [LF] @ str ''Body'') = [str ''Title'', str ''Body''] \<and>
   trim (str ''Title'') = str ''Title'' \<and> trim (str ''Body'') = str ''Body''"
proof -
  have e: "removeRepeatedLines (str ''  Title '' @ [LF, LF] @ str '' Body  '') = str ''Title'' @ [LF] @ str ''Body''"
    by code_simp
  have s: "split (str ''Title'' @ [LF] @ str ''Body'') = [str ''Title'', str ''Body'']"
    by code_simp
  have n: "str ''Title'' @ [LF] @ str ''Body'' \<noteq> []" by (simp add: str_def)
  from C10_output_lines_trimmed[of "str ''  Title '' @ [LF, LF] @ str '' Body  ''"] e s n
  show ?thesis by simp
qed

text \<open>
  The claim C1 on the whole pipeline: two paragraphs with four blank lines between them,
  and two one-fragment pages, both come out as one line with a single space where the
  paragraph break was; step 3 turns the two newlines that step 1 left into that space.
\<close>

theorem C1_counterexample:
  "extractTextFromPDF (Some [[str ''Hello'' @ [LF, LF, LF, LF, LF] @ str ''World'']])
     = Inr (str ''Hello World'') \<and>
   extractTextFromPDF (Some [[str ''Hello''], [str ''World'']]) = Inr (str ''Hello World'') \<and>
   collapseSpaces (str ''Hello'' @ [LF, LF] @ str ''World'') = str ''Hello World''"
proof (intro conjI)
  show "extractTextFromPDF (Some [[str ''Hello'' @ [LF, LF, LF, LF, LF] @ str ''World'']])
     = Inr (str ''Hello World'')"
    by code_simp
  show "extractTextFromPDF (Some [[str ''Hello''], [str ''World'']]) = Inr (str ''Hello World'')"
    by code_simp
  show "collapseSpaces (str ''Hello'' @ [LF, LF] @ str ''World'') = str ''Hello World''"
    by code_simp
qed

text \<open>The amended C1 at the same two paragraphs: step 1 leaves exactly one blank line.\<close>

theorem C1_witness:
  "collapseBlankLines (str ''Hello'' @ LF # [LF, LF, LF] @ LF # str ''World'')
     = str ''Hello'' @ [LF, LF] @ str ''World''"
proof -
  have a: "str ''Hello'' \<noteq> []" "\<not> isSpace (last (str ''Hello''))"
    by (simp_all add: str_def isSpace_def)
  have b: "str ''World'' \<noteq> []" "\<not> isSpace (hd (str ''World''))"
    by (simp_all add: str_def isSpace_def)
  have m: "\<forall>c \<in> set [LF, LF, LF]. isSpace c"
    by (simp add: isSpace_def LF_def)
  have e1: "collapseBlankLines (str ''Hello'') = str ''Hello''" by code_simp
  have e2: "collapseBlankLines (str ''World'') = str ''World''" by code_simp
  from C1_blank_lines_collapsed_in_step_1[OF a b m] show ?thesis
    by (simp only: e1 e2)
qed

text \<open>
  The claim C4 on the end-of-line rule: a hyphen with a space before it, and a hyphen
  with nothing before it, are removed with the newline behind them.
\<close>

theorem C4_counterexample:
  "\<not> isWordChar SP \<and>
   removeLineBreakHyphens (str ''a -'' @ [LF] @ str ''b'') = str ''a b'' \<and>
   removeLineBreakHyphens (HYPHEN # LF # str ''x'') = str ''x'' \<and>
   extractTextFromPDF (Some [[str ''item -'' @ [LF] @ str ''next'']]) = Inr (str ''item next'')"
proof (intro conjI)
  show "\<not> isWordChar SP" by (simp add: isWordChar_def SP_def)
  show "removeLineBreakHyphens (str ''a -'' @ [LF] @ str ''b'') = str ''a b''"
    by code_simp
  show "removeLineBreakHyphens (HYPHEN # LF # str ''x'') = str ''x''"
    by code_simp
  show "extractTextFromPDF (Some [[str ''item -'' @ [LF] @ str ''next'']]) = Inr (str ''item next'')"
    by code_simp
qed

text \<open>
  The amended C4 at \<open>well-known\<close> (no whitespace behind the hyphen: kept) and at
  \<open>veri-\<close>, newline, \<open>fy\<close> (removed).
\<close>

theorem C4_witness:
  "joinSpacedHyphens (str ''well'' @ HYPHEN # str ''known'') = str ''well'' @ HYPHEN # str ''known'' \<and>
   removeLineBreakHyphens (str ''veri'' @ HYPHEN # [] @ LF # str ''fy'') = str ''verify''"
proof
  have n: "str ''well'' = [] \<or> \<not> spacedHyphenMatch (last (str ''well'')) (str ''known'')"
    by (simp add: str_def spacedHyphenMatch_def isSpace_def)
  have e1: "joinSpacedHyphens (str ''well'') = str ''well''" by code_simp
  have e2: "joinSpacedHyphens (str ''known'') = str ''known''" by code_simp
  from C4_hyphen_rules[of "str ''well''" "str ''known''" "[]"] n
  have "joinSpacedHyphens (str ''well'' @ HYPHEN # str ''known'')
          = joinSpacedHyphens (str ''well'') @ HYPHEN # joinSpacedHyphens (str ''known'')"
    by blast
  then show "joinSpacedHyphens (str ''well'' @ HYPHEN # str ''known'')
          = str ''well'' @ HYPHEN # str ''known''"
    by (simp only: e1 e2)
next
  have e1: "removeLineBreakHyphens (str ''veri'') = str ''veri''" by code_simp
  have e2: "removeLineBreakHyphens (dropWhile isSpace (str ''fy'')) = str ''fy''" by code_simp
  have e3: "str ''veri'' @ str ''fy'' = str ''verify''" by (simp add: str_def)
  from C4_hyphen_rules[of "str ''veri''" "str ''fy''" "[]"]
  have "removeLineBreakHyphens (str ''veri'' @ HYPHEN # [] @ LF # str ''fy'')
          = removeLineBreakHyphens (str ''veri'') @ removeLineBreakHyphens (dropWhile isSpace (str ''fy''))"
    by simp
  then show "removeLineBreakHyphens (str ''veri'' @ HYPHEN # [] @ LF # str ''fy'') = str ''verify''"
    by (simp only: e1 e2 e3)
qed

text \<open>
  The claim C7: the page \<open>a- b- c\<close> is cleaned to \<open>ab- c\<close> (the second hyphen has lost
  the word character before it to the first match), and \<open>ab- c\<close>, fed back, is cleaned
  to \<open>abc\<close>.
\<close>

theorem C7_counterexample:
  "extractTextFromPDF (Some [[str ''a- b- c'']]) = Inr (str ''ab- c'') \<and>
   extractTextFromPDF (Some [[str ''ab- c'']]) = Inr (str ''abc'')"
proof
  show "extractTextFromPDF (Some [[str ''a- b- c'']]) = Inr (str ''ab- c'')"
    by code_simp
  show "extractTextFromPDF (Some [[str ''ab- c'']]) = Inr (str ''abc'')"
    by code_simp
qed

text \<open>The amended C7 at the page \<open>Hello   World\<close>, cleaned to \<open>Hello World\<close>.\<close>

theorem C7_witness:
  "extractTextFromPDF (Some [[str ''Hello   World'']]) = Inr (str ''Hello World'') \<and>
   extractTextFromPDF (Some [[str ''Hello World'']]) = Inr (str ''Hello World'')"
proof
  show first: "extractTextFromPDF (Some [[str ''Hello   World'']]) = Inr (str ''Hello World'')"
    by code_simp
  have h2: "joinLetters None (str ''Hello World'') = str ''Hello World''" by code_simp
  have h4: "joinSpacedHyphens (str ''Hello World'') = str ''Hello World''" by code_simp
  have h5: "removeRepeatedLines (str ''Hello World'') = str ''Hello World''" by code_simp
  show "extractTextFromPDF (Some [[str ''Hello World'']]) = Inr (str ''Hello World'')"
    using first h2 h4 h5 by (rule C7_second_pass_unchanged)
qed

end
